theory Spec2Isabelle
  imports Complex_Main "HOL-Library.Sublist"
begin

section \<open>JavaScript strings\<close>

text \<open>
  A JavaScript string is modelled as the list of its code units, so \<open>length\<close> is
  \<open>.length\<close> and list positions are the offsets that \<open>slice\<close> and \<open>indexOf\<close> use.
  Code units are drawn from \<^typ>\<open>char\<close>, that is the code units \<open>0x00..0xFF\<close>.
\<close>

text \<open>\<open>s.split(sep)\<close> for a one-character separator; \<open>cur\<close> is the piece being read.\<close>

fun split_cur :: "char \<Rightarrow> string \<Rightarrow> string \<Rightarrow> string list" where
  "split_cur sep cur [] = [cur]"
| "split_cur sep cur (c # cs) =
     (if c = sep then cur # split_cur sep [] cs else split_cur sep (cur @ [c]) cs)"

definition split_on :: "char \<Rightarrow> string \<Rightarrow> string list" where
  "split_on sep s = split_cur sep [] s"

text \<open>\<open>s.indexOf(pat)\<close>: the first offset at which \<open>pat\<close> occurs, \<open>-1\<close> when it does not.\<close>

fun indexOf_from :: "string \<Rightarrow> int \<Rightarrow> string \<Rightarrow> int" where
  "indexOf_from pat i [] = (if pat = [] then i else - 1)"
| "indexOf_from pat i (c # cs) =
     (if prefix pat (c # cs) then i else indexOf_from pat (i + 1) cs)"

definition indexOf :: "string \<Rightarrow> string \<Rightarrow> int" where
  "indexOf s pat = indexOf_from pat 0 s"

definition startsWith :: "string \<Rightarrow> string \<Rightarrow> bool" where
  "startsWith s pat = prefix pat s"

text \<open>
  \<open>s.slice(a, b)\<close> and \<open>s.slice(a)\<close>: a negative argument counts from the end, every
  argument is clamped to \<open>[0, s.length]\<close>, and the result is empty when the bounds cross.
\<close>

definition rel_index :: "nat \<Rightarrow> int \<Rightarrow> nat" where
  "rel_index len i = (if i < 0 then nat (max (int len + i) 0) else nat (min i (int len)))"

definition slice :: "string \<Rightarrow> int \<Rightarrow> int \<Rightarrow> string" where
  "slice s a b =
     (let from = rel_index (length s) a; to = rel_index (length s) b
      in take (to - from) (drop from s))"

definition slice_from :: "string \<Rightarrow> int \<Rightarrow> string" where
  "slice_from s a = drop (rel_index (length s) a) s"

text \<open>\<open>s.replaceAll(c, rep)\<close> for a one-character pattern \<open>c\<close>.\<close>

fun replaceAll :: "char \<Rightarrow> string \<Rightarrow> string \<Rightarrow> string" where
  "replaceAll c rep [] = []"
| "replaceAll c rep (x # xs) =
     (if x = c then rep @ replaceAll c rep xs else x # replaceAll c rep xs)"

text \<open>
  The white space that \<open>trim\<close> and the string-to-number conversion strip: TAB, LF, VT,
  FF, CR, SP and NBSP are the ones below \<open>0x100\<close>.
\<close>

definition is_ws :: "char \<Rightarrow> bool" where
  "is_ws c = (c \<in> set [CHR 0x09, CHR 0x0A, CHR 0x0B, CHR 0x0C, CHR 0x0D, CHR 0x20, CHR 0xA0])"

definition trim :: "string \<Rightarrow> string" where
  "trim s = rev (dropWhile is_ws (rev (dropWhile is_ws s)))"

section \<open>escapeHtml\<close>

definition escapeHtml :: "string \<Rightarrow> string" where
  "escapeHtml str =
     replaceAll (CHR 0x27) ''&#039;''
       (replaceAll (CHR 0x22) ''&quot;''
         (replaceAll CHR ''>'' ''&gt;''
           (replaceAll CHR ''<'' ''&lt;''
             (replaceAll CHR ''&'' ''&amp;'' str))))"

section \<open>Number and Number.isFinite\<close>

text \<open>
  \<open>Number(v)\<close> for \<open>v\<close> a string or \<open>undefined\<close> (\<open>None\<close>), followed by
  \<open>Number.isFinite\<close>: the result is \<open>Some q\<close> when the conversion gives the finite number
  \<open>q\<close>, and \<open>None\<close> when it gives \<open>NaN\<close> or an infinity. The conversion follows the
  grammar of string numeric literals: surrounding white space is stripped, the empty
  string is \<open>0\<close>, then either a binary, octal or hexadecimal integer literal or a signed
  decimal literal with optional fraction and exponent. Values are exact rationals: the
  rounding of binary64 is not modelled.
\<close>

definition is_digit :: "char \<Rightarrow> bool" where
  "is_digit c = (c \<in> set ''0123456789'')"

definition digit_val :: "char \<Rightarrow> nat" where
  "digit_val c =
     (if c \<in> set ''0123456789'' then of_char c - 48
      else if c \<in> set ''abcdef'' then of_char c - 87
      else of_char c - 55)"

definition radix_value :: "nat \<Rightarrow> string \<Rightarrow> nat" where
  "radix_value b ds = foldl (\<lambda>n c. b * n + digit_val c) 0 ds"

definition exponent_part :: "string \<Rightarrow> int option" where
  "exponent_part s =
     (case s of
        [] \<Rightarrow> Some 0
      | c # r \<Rightarrow>
          if c = CHR ''e'' \<or> c = CHR ''E'' then
            (let neg = (r \<noteq> [] \<and> hd r = CHR ''-'');
                 ds = (if r \<noteq> [] \<and> (hd r = CHR ''-'' \<or> hd r = CHR ''+'') then tl r else r)
             in if ds \<noteq> [] \<and> list_all is_digit ds
                then Some (if neg then - int (radix_value 10 ds) else int (radix_value 10 ds))
                else None)
          else None)"

definition scale10 :: "rat \<Rightarrow> int \<Rightarrow> rat" where
  "scale10 q e = (if e < 0 then q / 10 ^ nat (- e) else q * 10 ^ nat e)"

definition unsigned_decimal :: "string \<Rightarrow> rat option" where
  "unsigned_decimal s =
     (let ip = takeWhile is_digit s;
          r1 = dropWhile is_digit s;
          dot = (r1 \<noteq> [] \<and> hd r1 = CHR ''.'');
          fp = (if dot then takeWhile is_digit (tl r1) else []);
          r2 = (if dot then dropWhile is_digit (tl r1) else r1)
      in if ip = [] \<and> fp = [] then None
         else (case exponent_part r2 of
                 None \<Rightarrow> None
               | Some e \<Rightarrow>
                   Some (scale10 (of_nat (radix_value 10 ip)
                                   + of_nat (radix_value 10 fp) / 10 ^ length fp) e)))"

definition str_decimal :: "string \<Rightarrow> rat option" where
  "str_decimal s =
     (case s of
        [] \<Rightarrow> None
      | c # r \<Rightarrow>
          if c = CHR ''-'' then map_option uminus (unsigned_decimal r)
          else if c = CHR ''+'' then unsigned_decimal r
          else unsigned_decimal s)"

definition non_decimal :: "string \<Rightarrow> rat option" where
  "non_decimal s =
     (case s of
        z # x # ds \<Rightarrow>
          if z = CHR ''0'' \<and> ds \<noteq> [] then
            (if x \<in> set ''xX'' \<and> list_all (\<lambda>c. c \<in> set ''0123456789abcdefABCDEF'') ds
               then Some (of_nat (radix_value 16 ds))
             else if x \<in> set ''oO'' \<and> list_all (\<lambda>c. c \<in> set ''01234567'') ds
               then Some (of_nat (radix_value 8 ds))
             else if x \<in> set ''bB'' \<and> list_all (\<lambda>c. c \<in> set ''01'') ds
               then Some (of_nat (radix_value 2 ds))
             else None)
          else None
      | _ \<Rightarrow> None)"

definition Number :: "string option \<Rightarrow> rat option" where
  "Number v =
     (case v of
        None \<Rightarrow> None
      | Some s \<Rightarrow>
          (let t = trim s
           in if t = [] then Some 0
              else (case non_decimal t of Some q \<Rightarrow> Some q | None \<Rightarrow> str_decimal t)))"

text \<open>The integer that \<open>slice\<close> makes of a number argument: truncation towards zero.\<close>

definition ToIntegerOrInfinity :: "rat \<Rightarrow> int" where
  "ToIntegerOrInfinity x = (if x < 0 then \<lceil>x\<rceil> else \<lfloor>x\<rfloor>)"

section \<open>Emote rendering\<close>

record emote_range =
  r_start :: rat
  r_end :: rat
  r_id :: string

text \<open>
  Array destructuring \<open>const [a, b] = xs\<close>: the element at the position, or
  \<open>undefined\<close> (\<open>None\<close>) when the array is shorter.
\<close>

definition elem :: "'a list \<Rightarrow> nat \<Rightarrow> 'a option" where
  "elem xs i = (if i < length xs then Some (xs ! i) else None)"

text \<open>\<open>!v\<close> for \<open>v\<close> a string or \<open>undefined\<close>: both \<open>undefined\<close> and \<open>""\<close> are falsy.\<close>

definition falsy :: "string option \<Rightarrow> bool" where
  "falsy v = (v = None \<or> v = Some [])"

text \<open>The body of the inner loop: one \<open>loc\<close> pushes one range or none.\<close>

definition parse_loc :: "string \<Rightarrow> string \<Rightarrow> emote_range list" where
  "parse_loc ident loc =
     (let ps = split_on CHR ''-'' loc;
          startStr = elem ps 0;
          endStr = elem ps 1
      in case Number startStr of
           None \<Rightarrow> []
         | Some s \<Rightarrow>
             (case Number endStr of
                None \<Rightarrow> []
              | Some e \<Rightarrow> [\<lparr>r_start = s, r_end = e, r_id = ident\<rparr>]))"

text \<open>The body of the outer loop: the ranges one \<open>def\<close> pushes.\<close>

definition parse_def :: "string \<Rightarrow> emote_range list" where
  "parse_def d =
     (let ps = split_on CHR '':'' d;
          ident = elem ps 0;
          locs = elem ps 1
      in if falsy ident \<or> falsy locs then []
         else (case (ident, locs) of
                 (Some i, Some l) \<Rightarrow> concat (map (parse_loc i) (split_on CHR '','' l))
               | _ \<Rightarrow> []))"

definition parse_ranges :: "string \<Rightarrow> emote_range list" where
  "parse_ranges emotesTag =
     concat (map parse_def (filter (\<lambda>d. d \<noteq> []) (split_on CHR ''/'' emotesTag)))"

definition emote_img :: "string \<Rightarrow> string" where
  \<open>emote_img ident =
     ''<img class="emote" alt="" src="https://static-cdn.jtvnw.net/emoticons/v2/''
       @ ident @ ''/default/dark/1.0">''\<close>

text \<open>The walk over the sorted ranges, with its cursor, and the trailing text.\<close>

fun walk :: "string \<Rightarrow> rat \<Rightarrow> emote_range list \<Rightarrow> string list" where
  "walk text cursor [] =
     (if cursor < of_nat (length text)
      then [escapeHtml (slice_from text (ToIntegerOrInfinity cursor))] else [])"
| "walk text cursor (r # rs) =
     (if r_start r > cursor
      then [escapeHtml (slice text (ToIntegerOrInfinity cursor) (ToIntegerOrInfinity (r_start r)))]
      else [])
     @ [emote_img (r_id r)]
     @ walk text (r_end r + 1) rs"

text \<open>
  \<open>ranges.sort((a,b) => a.start - b.start)\<close> is a stable sort by \<open>start\<close>, as
  \<^const>\<open>sort_key\<close> is.
\<close>

definition buildMessageHtmlParts :: "string \<Rightarrow> string \<Rightarrow> string list" where
  "buildMessageHtmlParts text emotesTag =
     (if emotesTag = [] then [escapeHtml text]
      else (let ranges = parse_ranges emotesTag
            in if ranges = [] then [escapeHtml text]
               else walk text 0 (sort_key r_start ranges)))"

section \<open>Segments\<close>

text \<open>
  The parts that \<open>buildMessageHtmlParts\<close> returns are HTML strings. A \<open>Literal\<close> segment
  stands for the text that \<open>escapeHtml\<close> was applied to, an \<open>EmoteRef\<close> segment for the
  image tag of an emote id; \<open>render\<close> gives the part of a segment.
\<close>

datatype Segment = Literal string | EmoteRef string

fun render :: "Segment \<Rightarrow> string" where
  "render (Literal t) = escapeHtml t"
| "render (EmoteRef i) = emote_img i"

text \<open>
  The same walk, recording for each push the interval \<open>[lo, hi)\<close> of the text it stands
  for: the bounds of the slice for a literal, and \<open>[start, end + 1)\<close> for an emote.
\<close>

datatype span = LiteralSpan nat nat | EmoteSpan string nat nat

fun walk_spans :: "nat \<Rightarrow> rat \<Rightarrow> emote_range list \<Rightarrow> span list" where
  "walk_spans len cursor [] =
     (if cursor < of_nat len
      then [LiteralSpan (rel_index len (ToIntegerOrInfinity cursor)) len] else [])"
| "walk_spans len cursor (r # rs) =
     (if r_start r > cursor
      then [LiteralSpan (rel_index len (ToIntegerOrInfinity cursor))
                        (rel_index len (ToIntegerOrInfinity (r_start r)))]
      else [])
     @ [EmoteSpan (r_id r) (rel_index len (ToIntegerOrInfinity (r_start r)))
                           (rel_index len (ToIntegerOrInfinity (r_end r + 1)))]
     @ walk_spans len (r_end r + 1) rs"

definition segment_spans :: "string \<Rightarrow> string \<Rightarrow> span list" where
  "segment_spans text emotesTag =
     (if emotesTag = [] then [LiteralSpan 0 (length text)]
      else (let ranges = parse_ranges emotesTag
            in if ranges = [] then [LiteralSpan 0 (length text)]
               else walk_spans (length text) 0 (sort_key r_start ranges)))"

fun span_segment :: "string \<Rightarrow> span \<Rightarrow> Segment" where
  "span_segment text (LiteralSpan lo hi) = Literal (take (hi - lo) (drop lo text))"
| "span_segment text (EmoteSpan i lo hi) = EmoteRef i"

definition segmenter :: "string \<Rightarrow> string \<Rightarrow> Segment list" where
  "segmenter text emotesTag = map (span_segment text) (segment_spans text emotesTag)"

text \<open>The values the cursor takes: before the first range and after each one.\<close>

fun cursor_trace :: "rat \<Rightarrow> emote_range list \<Rightarrow> rat list" where
  "cursor_trace cursor [] = [cursor]"
| "cursor_trace cursor (r # rs) = cursor # cursor_trace (r_end r + 1) rs"

text \<open>The entity each character is replaced with, as a table.\<close>

definition entity :: "char \<Rightarrow> string" where
  "entity c =
     (if c = CHR ''&'' then ''&amp;''
      else if c = CHR ''<'' then ''&lt;''
      else if c = CHR ''>'' then ''&gt;''
      else if c = CHR 0x22 then ''&quot;''
      else if c = CHR 0x27 then ''&#039;''
      else [c])"

text \<open>The text of a segment that is kept when emotes are taken out.\<close>

fun literal_text :: "Segment \<Rightarrow> string" where
  "literal_text (Literal t) = t"
| "literal_text (EmoteRef i) = []"

subsection \<open>Well-formed ranges and coverage\<close>

text \<open>
  A range is in bounds for a text of length \<open>len\<close> when its offsets are whole numbers
  with \<open>0 \<le> start \<le> end < len\<close>; ranges do not overlap when every two of them are
  disjoint as inclusive intervals.
\<close>

definition is_offset :: "rat \<Rightarrow> bool" where
  "is_offset q = (0 \<le> q \<and> of_int \<lfloor>q\<rfloor> = q)"

definition in_bounds :: "nat \<Rightarrow> emote_range \<Rightarrow> bool" where
  "in_bounds len r =
     (is_offset (r_start r) \<and> is_offset (r_end r) \<and> r_start r \<le> r_end r \<and> r_end r < of_nat len)"

definition disjoint :: "emote_range \<Rightarrow> emote_range \<Rightarrow> bool" where
  "disjoint a b = (r_end a < r_start b \<or> r_end b < r_start a)"

fun non_overlapping :: "emote_range list \<Rightarrow> bool" where
  "non_overlapping [] = True"
| "non_overlapping (r # rs) = (list_all (disjoint r) rs \<and> non_overlapping rs)"

text \<open>Spans tile \<open>[a, b)\<close>: each starts where the one before ends, from \<open>a\<close> to \<open>b\<close>.\<close>

fun span_lo :: "span \<Rightarrow> nat" where
  "span_lo (LiteralSpan lo hi) = lo"
| "span_lo (EmoteSpan i lo hi) = lo"

fun span_hi :: "span \<Rightarrow> nat" where
  "span_hi (LiteralSpan lo hi) = hi"
| "span_hi (EmoteSpan i lo hi) = hi"

fun tiles :: "nat \<Rightarrow> nat \<Rightarrow> span list \<Rightarrow> bool" where
  "tiles a b [] = (a = b)"
| "tiles a b (sp # sps) = (span_lo sp = a \<and> a \<le> span_hi sp \<and> tiles (span_hi sp) b sps)"

text \<open>The text with every position that some range covers taken out.\<close>

definition covered :: "emote_range list \<Rightarrow> nat \<Rightarrow> bool" where
  "covered rs i = list_ex (\<lambda>r. r_start r \<le> of_nat i \<and> of_nat i \<le> r_end r) rs"

definition uncovered_text :: "string \<Rightarrow> emote_range list \<Rightarrow> string" where
  "uncovered_text text rs =
     map (\<lambda>i. text ! i) (filter (\<lambda>i. \<not> covered rs i) [0..<length text])"

text \<open>The interval \<open>[start, end + 1)\<close> of a range with whole offsets, with its id.\<close>

definition range_span :: "emote_range \<Rightarrow> span" where
  "range_span r = EmoteSpan (r_id r) (nat \<lfloor>r_start r\<rfloor>) (Suc (nat \<lfloor>r_end r\<rfloor>))"

fun is_emote_span :: "span \<Rightarrow> bool" where
  "is_emote_span (LiteralSpan lo hi) = False"
| "is_emote_span (EmoteSpan i lo hi) = True"

text \<open>
  Ranges in walking order from cursor \<open>c\<close>: whole offsets, each range starting at or
  after the cursor left by the one before, the last ending before \<open>len\<close>.
\<close>

fun chained :: "nat \<Rightarrow> nat \<Rightarrow> emote_range list \<Rightarrow> bool" where
  "chained c len [] = (c \<le> len)"
| "chained c len (r # rs) =
     (\<exists>s e. r_start r = of_nat s \<and> r_end r = of_nat e \<and> c \<le> s \<and> s \<le> e \<and> e < len
            \<and> chained (Suc e) len rs)"

subsection \<open>Well-formed specifications\<close>

text \<open>
  The form \<open>id:start-end,start-end/id:start-end\<close> of the specification: groups
  separated by \<open>/\<close>, each an id, a colon and ranges separated by commas, each range two
  decimal numbers with a \<open>-\<close> between them.
\<close>

definition all_digits :: "string \<Rightarrow> bool" where
  "all_digits ds = (ds \<noteq> [] \<and> list_all is_digit ds)"

definition wf_loc :: "string \<Rightarrow> bool" where
  "wf_loc loc =
     (case split_on CHR ''-'' loc of [a, b] \<Rightarrow> all_digits a \<and> all_digits b | _ \<Rightarrow> False)"

definition wf_group :: "string \<Rightarrow> bool" where
  "wf_group d =
     (case split_on CHR '':'' d of
        [i, locs] \<Rightarrow> i \<noteq> [] \<and> list_all wf_loc (split_on CHR '','' locs)
      | _ \<Rightarrow> False)"

definition wf_spec :: "string \<Rightarrow> bool" where
  "wf_spec emotesTag = list_all wf_group (split_on CHR ''/'' emotesTag)"

text \<open>The range a well-formed \<open>loc\<close> of the group \<open>ident\<close> denotes.\<close>

definition loc_range :: "string \<Rightarrow> string \<Rightarrow> emote_range" where
  "loc_range ident loc =
     (let ps = split_on CHR ''-'' loc
      in \<lparr>r_start = of_nat (radix_value 10 (ps ! 0)),
          r_end = of_nat (radix_value 10 (ps ! 1)),
          r_id = ident\<rparr>)"

definition group_ranges :: "string \<Rightarrow> emote_range list" where
  "group_ranges d =
     (let ps = split_on CHR '':'' d
      in map (loc_range (ps ! 0)) (split_on CHR '','' (ps ! 1)))"

definition spec_ranges :: "string \<Rightarrow> emote_range list" where
  "spec_ranges emotesTag = concat (map group_ranges (split_on CHR ''/'' emotesTag))"

section \<open>IRC parsing\<close>

text \<open>
  \<open>parseTags\<close> fills an object literal \<open>out = {}\<close> by \<open>out[k] = v\<close>. The object is
  modelled by its own properties. An assignment makes \<open>k\<close> an own property for every
  key but \<open>__proto__\<close>: that name is an accessor of \<open>Object.prototype\<close>, whose setter
  ignores a value that is a string, leaving the object as it was.
\<close>

type_synonym tagmap = "string \<rightharpoonup> string"

definition set_property :: "tagmap \<Rightarrow> string \<Rightarrow> string \<Rightarrow> tagmap" where
  "set_property out k v = (if k = ''__proto__'' then out else out(k \<mapsto> v))"

text \<open>
  A read \<open>obj[k]\<close>: the own property when there is one, else what \<open>Object.prototype\<close>
  has under that name (a function, or the prototype itself), else \<open>undefined\<close>.
\<close>

datatype property = Undefined | Str string | Inherited

definition object_prototype_names :: "string list" where
  "object_prototype_names =
     [''constructor'', ''hasOwnProperty'', ''isPrototypeOf'', ''propertyIsEnumerable'',
      ''toLocaleString'', ''toString'', ''valueOf'', ''__proto__'',
      ''__defineGetter__'', ''__defineSetter__'', ''__lookupGetter__'', ''__lookupSetter__'']"

definition get_property :: "tagmap \<Rightarrow> string \<Rightarrow> property" where
  "get_property obj k =
     (case obj k of
        Some v \<Rightarrow> Str v
      | None \<Rightarrow> if k \<in> set object_prototype_names then Inherited else Undefined)"

text \<open>The key and the value of one segment \<open>p\<close>, split at its first \<open>=\<close>.\<close>

definition tag_key :: "string \<Rightarrow> string" where
  "tag_key p = (let eq = indexOf p ''='' in if eq = - 1 then p else slice p 0 eq)"

definition tag_value :: "string \<Rightarrow> string" where
  "tag_value p = (let eq = indexOf p ''='' in if eq = - 1 then [] else slice_from p (eq + 1))"

fun parseTags_loop :: "tagmap \<Rightarrow> string list \<Rightarrow> tagmap" where
  "parseTags_loop out [] = out"
| "parseTags_loop out (p # ps) = parseTags_loop (set_property out (tag_key p) (tag_value p)) ps"

definition parseTags :: "string \<Rightarrow> tagmap" where
  "parseTags raw = parseTags_loop Map.empty (split_on CHR '';'' raw)"

text \<open>
  \<open>tags[k] || d\<close> for the five names \<open>parsePrivmsg\<close> reads, none of which
  \<open>Object.prototype\<close> defines: the own property, or \<open>d\<close> when it is missing or empty.
\<close>

definition or_default :: "string option \<Rightarrow> string \<Rightarrow> string" where
  "or_default v d = (case v of None \<Rightarrow> d | Some s \<Rightarrow> if s = [] then d else s)"

record ChatEvent =
  name :: string
  color :: string
  htmlParts :: "string list"
  badges :: string
  roomId :: string

text \<open>The first part of \<open>parsePrivmsg\<close>: the tags and the working line \<open>rest\<close>.\<close>

definition strip_tags :: "string \<Rightarrow> tagmap \<times> string" where
  "strip_tags line =
     (if startsWith line ''@'' then
        (let spaceIdx = indexOf line '' '';
             rawTags = slice line 1 spaceIdx
         in (parseTags rawTags, slice_from line (spaceIdx + 1)))
      else (Map.empty, line))"

text \<open>\<open>parsePrivmsg\<close> returns an event, or \<open>null\<close> (\<open>None\<close>).\<close>

definition parsePrivmsg :: "string \<Rightarrow> ChatEvent option" where
  "parsePrivmsg line =
     (let (tags, rest) = strip_tags line;
          msgIdx = indexOf rest '' :''
      in if msgIdx = - 1 then None
         else (let text = slice_from rest (msgIdx + 2);
                   emotes = or_default (tags ''emotes'') []
               in Some \<lparr>name = or_default (tags ''display-name'') ''Unknown'',
                        color = or_default (tags ''color'') ''#ffffff'',
                        htmlParts = buildMessageHtmlParts text emotes,
                        badges = or_default (tags ''badges'') [],
                        roomId = or_default (tags ''room-id'') []\<rparr>))"

text \<open>
  The working portion of a line in the words of the specification: the line itself, or,
  when it starts with \<open>@\<close>, what follows its first space.
\<close>

definition spec_working_line :: "string \<Rightarrow> string" where
  "spec_working_line line =
     (if line \<noteq> [] \<and> hd line = CHR ''@'' then drop 1 (dropWhile (\<lambda>c. c \<noteq> CHR '' '') line)
      else line)"

text \<open>A tag blob in the form of the specification: \<open>k1=v1;k2=v2;...\<close>.\<close>

fun encode_tags :: "(string \<times> string) list \<Rightarrow> string" where
  "encode_tags [] = []"
| "encode_tags [(k, v)] = k @ ''='' @ v"
| "encode_tags ((k, v) # kvs) = k @ ''='' @ v @ '';'' @ encode_tags kvs"

section \<open>Badges\<close>

text \<open>
  A badge table is a \<open>Map\<close> from \<open>"set/version"\<close> to what
  \<open>v.image_url_2x || v.image_url_1x\<close> gave: a string, or \<open>undefined\<close> (\<open>None\<close>) when
  the record has neither field. The JSON of the badge endpoints is taken at its
  documented shape; \<open>helix_json\<close> is the \<open>data\<close> array, \<open>None\<close> when it is missing.
\<close>

type_synonym badge_table = "string \<rightharpoonup> string option"

record badge_version =
  v_id :: string
  image_url_2x :: "string option"
  image_url_1x :: "string option"

record badge_set =
  set_id :: string
  versions :: "badge_version list option"

type_synonym helix_json = "badge_set list option"

text \<open>\<open>a || b\<close> on values that are strings or \<open>undefined\<close>.\<close>

definition js_or :: "string option \<Rightarrow> string option \<Rightarrow> string option" where
  "js_or a b = (if falsy a then b else a)"

fun add_versions :: "badge_table \<Rightarrow> string \<Rightarrow> badge_version list \<Rightarrow> badge_table" where
  "add_versions m setId [] = m"
| "add_versions m setId (v # vs) =
     add_versions (m(setId @ ''/'' @ v_id v \<mapsto> js_or (image_url_2x v) (image_url_1x v))) setId vs"

fun add_sets :: "badge_table \<Rightarrow> badge_set list \<Rightarrow> badge_table" where
  "add_sets m [] = m"
| "add_sets m (s # ss) =
     add_sets (add_versions m (set_id s) (case versions s of None \<Rightarrow> [] | Some vs \<Rightarrow> vs)) ss"

definition buildBadgeMap :: "helix_json \<Rightarrow> badge_table" where
  "buildBadgeMap helixJson =
     add_sets Map.empty (case helixJson of None \<Rightarrow> [] | Some sets \<Rightarrow> sets)"

record badge_cache =
  global :: "badge_table option"
  channels :: "string \<rightharpoonup> badge_table"
  globalLoaded :: bool

text \<open>\<open>map.get(key)\<close>: the stored value, \<open>undefined\<close> when there is none.\<close>

definition map_get :: "badge_table \<Rightarrow> string \<Rightarrow> string option" where
  "map_get m key = (case m key of None \<Rightarrow> None | Some v \<Rightarrow> v)"

text \<open>The two tables \<open>buildBadgesFragment\<close> reads, \<open>globalMap\<close> and \<open>chanMap\<close>.\<close>

definition globalMap :: "badge_cache \<Rightarrow> badge_table" where
  "globalMap badgeCache = (case global badgeCache of None \<Rightarrow> Map.empty | Some m \<Rightarrow> m)"

definition chanMap :: "badge_cache \<Rightarrow> string \<Rightarrow> badge_table" where
  "chanMap badgeCache broadcasterId =
     (if broadcasterId = [] then Map.empty
      else (case channels badgeCache broadcasterId of None \<Rightarrow> Map.empty | Some m \<Rightarrow> m))"

text \<open>
  The loop over the keys. The fragment is modelled by the \<open>src\<close> of its \<open>img\<close>
  elements, in order; class and \<open>alt\<close> are the same for all.
\<close>

fun badge_loop :: "badge_table \<Rightarrow> badge_table \<Rightarrow> string list \<Rightarrow> string list" where
  "badge_loop cm gm [] = []"
| "badge_loop cm gm (key # keys) =
     (case js_or (map_get cm key) (map_get gm key) of
        None \<Rightarrow> badge_loop cm gm keys
      | Some url \<Rightarrow> if url = [] then badge_loop cm gm keys else url # badge_loop cm gm keys)"

definition buildBadgesFragment :: "badge_cache \<Rightarrow> string list \<Rightarrow> string \<Rightarrow> string list" where
  "buildBadgesFragment badgeCache keys broadcasterId =
     badge_loop (chanMap badgeCache broadcasterId) (globalMap badgeCache) keys"

definition parseBadgesTag :: "string \<Rightarrow> string list" where
  "parseBadgesTag badgesTag =
     (if badgesTag = [] then []
      else filter (\<lambda>s. s \<noteq> []) (map trim (split_on CHR '','' badgesTag)))"

subsection \<open>Resolution in the words of the specification\<close>

text \<open>
  As the specification states it: the value the channel table holds for the key when the
  key is present there, otherwise the value of the global table, otherwise nothing.
\<close>

definition spec_resolve :: "badge_table \<Rightarrow> badge_table \<Rightarrow> string \<Rightarrow> string option" where
  "spec_resolve cm gm key =
     (case cm key of Some v \<Rightarrow> v | None \<Rightarrow> (case gm key of Some v \<Rightarrow> v | None \<Rightarrow> None))"

text \<open>
  As the code has it: a table counts for a key only when it holds a non-empty string
  for it.
\<close>

definition usable :: "badge_table \<Rightarrow> string \<Rightarrow> string option" where
  "usable m key =
     (case m key of Some (Some url) \<Rightarrow> if url = [] then None else Some url | _ \<Rightarrow> None)"

definition resolve :: "badge_table \<Rightarrow> badge_table \<Rightarrow> string \<Rightarrow> string option" where
  "resolve cm gm key = (case usable cm key of Some url \<Rightarrow> Some url | None \<Rightarrow> usable gm key)"

text \<open>A table has no empty or undefined value under the key.\<close>

definition clean_at :: "badge_table \<Rightarrow> string \<Rightarrow> bool" where
  "clean_at m key = (case m key of None \<Rightarrow> True | Some v \<Rightarrow> \<not> falsy v)"

section \<open>The badge cache\<close>

text \<open>
  \<open>ensureBadgesLoaded\<close> is an async function: a call runs until its first \<open>await\<close>,
  is suspended there, and goes on when the awaited promise settles; between two awaits
  nothing else runs. \<open>pc\<close> says where a call is suspended, \<open>settled\<close> what the promise it
  waits for settles with: a rejection (a network error, or a body that is not JSON), the
  response of \<open>fetch\<close> with its \<open>ok\<close> flag, or the parsed body of \<open>r.json()\<close>.
\<close>

datatype slot = GlobalSlot | ChannelSlot string

datatype pc = AwaitGlobalFetch | AwaitGlobalJson | AwaitChannelFetch | AwaitChannelJson | Done

datatype settled = Rejected | Response bool | Body helix_json

record call =
  broadcasterId :: string
  suspended :: pc

text \<open>
  The state: the cache, the calls made so far (a call is named by its position), and
  the fetches issued so far, each by the slot it is for.
\<close>

record state =
  badgeCache :: badge_cache
  calls :: "call list"
  fetches :: "slot list"

definition initial :: state where
  "initial = \<lparr>badgeCache = \<lparr>global = None, channels = Map.empty, globalLoaded = False\<rparr>,
              calls = [], fetches = []\<rparr>"

text \<open>The channel part of the function, up to its \<open>await fetch\<close>.\<close>

definition channel_part :: "string \<Rightarrow> state \<Rightarrow> state \<times> pc" where
  "channel_part bid st =
     (if bid = [] then (st, Done)
      else (case channels (badgeCache st) bid of
              Some m \<Rightarrow> (st, Done)
            | None \<Rightarrow> (st\<lparr>fetches := fetches st @ [ChannelSlot bid]\<rparr>, AwaitChannelFetch)))"

definition set_global :: "badge_table \<Rightarrow> state \<Rightarrow> state" where
  "set_global m st = st\<lparr>badgeCache := (badgeCache st)\<lparr>global := Some m\<rparr>\<rparr>"

definition set_channel :: "string \<Rightarrow> badge_table \<Rightarrow> state \<Rightarrow> state" where
  "set_channel bid m st =
     st\<lparr>badgeCache := (badgeCache st)\<lparr>channels := (channels (badgeCache st))(bid \<mapsto> m)\<rparr>\<rparr>"

text \<open>A new call of \<open>ensureBadgesLoaded(bid)\<close>, run to its first \<open>await\<close> or to its end.\<close>

definition start_call :: "string \<Rightarrow> string \<Rightarrow> state \<Rightarrow> state" where
  "start_call badgeProxy bid st =
     (if badgeProxy = [] then st\<lparr>calls := calls st @ [\<lparr>broadcasterId = bid, suspended = Done\<rparr>]\<rparr>
      else if \<not> globalLoaded (badgeCache st) then
        st\<lparr>badgeCache := (badgeCache st)\<lparr>globalLoaded := True\<rparr>,
           calls := calls st @ [\<lparr>broadcasterId = bid, suspended = AwaitGlobalFetch\<rparr>],
           fetches := fetches st @ [GlobalSlot]\<rparr>
      else (let (st', p) = channel_part bid st
            in st'\<lparr>calls := calls st' @ [\<lparr>broadcasterId = bid, suspended = p\<rparr>]\<rparr>))"

text \<open>
  A suspended call goes on with what its promise settled with, to its next \<open>await\<close>
  or to its end: the new state, and where the call is now. A settlement that the
  awaited promise cannot have leaves everything as it is.
\<close>

definition continue :: "call \<Rightarrow> settled \<Rightarrow> state \<Rightarrow> state \<times> pc" where
  "continue c r st =
     (let bid = broadcasterId c
      in case (suspended c, r) of
           (AwaitGlobalFetch, Response True) \<Rightarrow> (st, AwaitGlobalJson)
         | (AwaitGlobalFetch, Response False) \<Rightarrow> channel_part bid (set_global Map.empty st)
         | (AwaitGlobalFetch, Rejected) \<Rightarrow> channel_part bid (set_global Map.empty st)
         | (AwaitGlobalJson, Body j) \<Rightarrow> channel_part bid (set_global (buildBadgeMap j) st)
         | (AwaitGlobalJson, Rejected) \<Rightarrow> channel_part bid (set_global Map.empty st)
         | (AwaitChannelFetch, Response True) \<Rightarrow> (st, AwaitChannelJson)
         | (AwaitChannelFetch, Response False) \<Rightarrow> (set_channel bid Map.empty st, Done)
         | (AwaitChannelFetch, Rejected) \<Rightarrow> (set_channel bid Map.empty st, Done)
         | (AwaitChannelJson, Body j) \<Rightarrow> (set_channel bid (buildBadgeMap j) st, Done)
         | (AwaitChannelJson, Rejected) \<Rightarrow> (set_channel bid Map.empty st, Done)
         | _ \<Rightarrow> (st, suspended c))"

text \<open>The promise of call \<open>i\<close> settles.\<close>

definition move_to :: "nat \<Rightarrow> state \<times> pc \<Rightarrow> state" where
  "move_to i sp = (case sp of (st, p) \<Rightarrow> st\<lparr>calls := (calls st)[i := (calls st ! i)\<lparr>suspended := p\<rparr>]\<rparr>)"

definition resume :: "nat \<Rightarrow> settled \<Rightarrow> state \<Rightarrow> state" where
  "resume i r st =
     (if i \<ge> length (calls st) then st else move_to i (continue (calls st ! i) r st))"

datatype event = Call string | Settle nat settled

fun step :: "string \<Rightarrow> state \<Rightarrow> event \<Rightarrow> state" where
  "step badgeProxy st (Call bid) = start_call badgeProxy bid st"
| "step badgeProxy st (Settle i r) = resume i r st"

definition run :: "string \<Rightarrow> event list \<Rightarrow> state \<Rightarrow> state" where
  "run badgeProxy evs st = foldl (step badgeProxy) st evs"

subsection \<open>Invariants of the cache\<close>

text \<open>The global table was fetched at most once, and not at all before \<open>globalLoaded\<close> is set.\<close>

definition global_once :: "state \<Rightarrow> bool" where
  "global_once st =
     (count_list (fetches st) GlobalSlot \<le> 1
      \<and> (\<not> globalLoaded (badgeCache st) \<longrightarrow> count_list (fetches st) GlobalSlot = 0))"

text \<open>A call is suspended in its channel part, or in its global part.\<close>

definition channel_waiting :: "call \<Rightarrow> bool" where
  "channel_waiting c = (suspended c = AwaitChannelFetch \<or> suspended c = AwaitChannelJson)"

definition global_waiting :: "call \<Rightarrow> bool" where
  "global_waiting c = (suspended c = AwaitGlobalFetch \<or> suspended c = AwaitGlobalJson)"

text \<open>Some call is suspended at a fetch for the channel slot \<open>bid\<close>.\<close>

definition in_flight :: "string \<Rightarrow> state \<Rightarrow> bool" where
  "in_flight bid st = list_ex (\<lambda>c. broadcasterId c = bid \<and> channel_waiting c) (calls st)"

text \<open>The channel slot holds a table and no fetch for it is in flight.\<close>

definition settled_slot :: "string \<Rightarrow> badge_table \<Rightarrow> state \<Rightarrow> bool" where
  "settled_slot bid m st = (channels (badgeCache st) bid = Some m \<and> \<not> in_flight bid st)"

text \<open>Call \<open>j\<close> is suspended at the fetch for the global slot.\<close>

definition waits_global :: "state \<Rightarrow> nat \<Rightarrow> bool" where
  "waits_global st j = (j < length (calls st) \<and> global_waiting (calls st ! j))"

text \<open>
  What holds of the global slot in every state: before \<open>globalLoaded\<close> is set the slot is
  empty and no call waits for it; once it holds a table no call waits for it; and at
  most one call waits for it.
\<close>

definition global_inv :: "state \<Rightarrow> bool" where
  "global_inv st =
     ((\<not> globalLoaded (badgeCache st) \<longrightarrow>
         global (badgeCache st) = None \<and> (\<forall>j. \<not> waits_global st j))
      \<and> (global (badgeCache st) \<noteq> None \<longrightarrow> (\<forall>j. \<not> waits_global st j))
      \<and> (\<forall>i j. waits_global st i \<and> waits_global st j \<longrightarrow> i = j))"

section \<open>Facts about the string primitives\<close>

lemma replaceAll_append:
  "replaceAll c rep (xs @ ys) = replaceAll c rep xs @ replaceAll c rep ys"
  by (induction xs) simp_all

lemma escapeHtml_Nil: "escapeHtml [] = []"
  by (simp add: escapeHtml_def)

lemma escapeHtml_Cons: "escapeHtml (x # xs) = entity x @ escapeHtml xs"
  by (simp add: escapeHtml_def entity_def replaceAll_append)

lemma escapeHtml_entities: "escapeHtml s = concat (map entity s)"
  by (induction s) (simp_all add: escapeHtml_Nil escapeHtml_Cons)

lemma escapeHtml_append: "escapeHtml (xs @ ys) = escapeHtml xs @ escapeHtml ys"
  by (simp add: escapeHtml_entities)

lemma entity_no_angle: "CHR ''<'' \<notin> set (entity c) \<and> CHR ''>'' \<notin> set (entity c)"
  by (simp add: entity_def)

lemma escapeHtml_no_angle:
  "CHR ''<'' \<notin> set (escapeHtml s) \<and> CHR ''>'' \<notin> set (escapeHtml s)"
  using entity_no_angle by (auto simp: escapeHtml_entities)

lemma slice_take_drop:
  "slice s a b
   = take (rel_index (length s) b - rel_index (length s) a) (drop (rel_index (length s) a) s)"
  by (simp add: slice_def Let_def)

lemma slice_from_take_drop:
  "slice_from s a = take (length s - rel_index (length s) a) (drop (rel_index (length s) a) s)"
  by (simp add: slice_from_def)

lemma slice_from_nat: "n \<le> length s \<Longrightarrow> slice_from s (int n) = drop n s"
  by (simp add: slice_from_def rel_index_def)

lemma slice_nths: "hi \<le> length xs \<Longrightarrow> take (hi - lo) (drop lo xs) = map (\<lambda>i. xs ! i) [lo..<hi]"
  by (rule nth_equalityI) auto

lemma drop_nths: "drop lo xs = map (\<lambda>i. xs ! i) [lo..<length xs]"
  by (rule nth_equalityI) auto

lemma upt_split: "a \<le> b \<Longrightarrow> b \<le> c \<Longrightarrow> [a..<c] = [a..<b] @ [b..<c]"
  by (metis le_add_diff_inverse upt_add_eq_append)

lemma sublist_take_drop: "sublist (take n (drop m xs)) xs"
proof -
  have "xs = take m xs @ take n (drop m xs) @ drop n (drop m xs)"
    by (simp only: append_take_drop_id)
  then show ?thesis
    unfolding sublist_def by blast
qed

lemma split_cur_no_sep: "sep \<notin> set s \<Longrightarrow> split_cur sep cur s = [cur @ s]"
  by (induction s arbitrary: cur) auto

lemma split_cur_sep:
  "sep \<notin> set p \<Longrightarrow> split_cur sep cur (p @ sep # rest) = (cur @ p) # split_cur sep [] rest"
  by (induction p arbitrary: cur) auto

lemma split_on_sep:
  "sep \<notin> set p \<Longrightarrow> split_on sep (p @ sep # rest) = p # split_on sep rest"
  by (simp add: split_on_def split_cur_sep)

lemma split_on_no_sep: "sep \<notin> set p \<Longrightarrow> split_on sep p = [p]"
  by (simp add: split_on_def split_cur_no_sep)

lemma indexOf_from_lower: "indexOf_from pat i s = - 1 \<or> i \<le> indexOf_from pat i s"
proof (induction s arbitrary: i)
  case Nil
  then show ?case by simp
next
  case (Cons c cs)
  from Cons.IH [of "i + 1"] show ?case by auto
qed

lemma indexOf_from_absent:
  "0 \<le> i \<Longrightarrow> (indexOf_from pat i s = - 1) = (\<not> sublist pat s)"
proof (induction s arbitrary: i)
  case Nil
  then show ?case by auto
next
  case (Cons c cs)
  show ?case
  proof (cases "prefix pat (c # cs)")
    case True
    then have "sublist pat (c # cs)" by (simp add: sublist_Cons_right)
    with True Cons.prems show ?thesis by simp
  next
    case False
    then have "sublist pat (c # cs) = sublist pat cs" by (simp add: sublist_Cons_right)
    with False Cons.IH [of "i + 1"] Cons.prems show ?thesis by simp
  qed
qed

lemma indexOf_absent: "(indexOf s pat = - 1) = (\<not> sublist pat s)"
  by (simp add: indexOf_def indexOf_from_absent)

lemma indexOf_from_char:
  "indexOf_from [c] i s
   = (if c \<in> set s then i + int (length (takeWhile (\<lambda>x. x \<noteq> c) s)) else - 1)"
  by (induction s arbitrary: i) auto

lemma indexOf_char:
  "indexOf s [c] = (if c \<in> set s then int (length (takeWhile (\<lambda>x. x \<noteq> c) s)) else - 1)"
  by (simp add: indexOf_def indexOf_from_char)

lemma sublist_needs_first: "sublist (c # p) s \<Longrightarrow> c \<in> set s"
  by (auto simp: sublist_def)

lemma first_space_index:
  "c \<in> set s \<Longrightarrow> length (takeWhile (\<lambda>x. x \<noteq> c) s) < length s"
  by (induction s) auto

lemma takeWhile_until: "c \<notin> set k \<Longrightarrow> takeWhile (\<lambda>x. x \<noteq> c) (k @ c # v) = k"
  by (induction k) auto

lemma takeWhile_all: "list_all P xs \<Longrightarrow> takeWhile P xs = xs \<and> dropWhile P xs = []"
  by (induction xs) auto

section \<open>Decimal offsets\<close>

text \<open>
  On a string of decimal digits \<open>Number\<close> gives its decimal value; on \<open>undefined\<close> it gives \<open>NaN\<close>.
\<close>

lemma digit_not_ws: "is_digit c \<Longrightarrow> \<not> is_ws c"
  by (auto simp: is_digit_def is_ws_def)

lemma digit_not_sign:
  "is_digit c \<Longrightarrow> c \<noteq> CHR ''-'' \<and> c \<noteq> CHR ''+'' \<and> c \<notin> set ''xX'' \<and> c \<notin> set ''oO''
                   \<and> c \<notin> set ''bB''"
  by (auto simp: is_digit_def)

lemma trim_digits: "all_digits ds \<Longrightarrow> trim ds = ds"
proof -
  assume a: "all_digits ds"
  then obtain c cs where ds: "ds = c # cs" and c: "is_digit c"
    by (cases ds) (auto simp: all_digits_def)
  have "dropWhile is_ws ds = ds"
    using ds c digit_not_ws by simp
  moreover have "dropWhile is_ws (rev ds) = rev ds"
  proof (cases "rev ds")
    case Nil
    then show ?thesis by simp
  next
    case (Cons x xs)
    then have "x \<in> set ds" by (metis list.set_intros(1) set_rev)
    with a have "is_digit x" by (simp add: all_digits_def list_all_iff)
    then show ?thesis using Cons digit_not_ws by simp
  qed
  ultimately show ?thesis by (simp add: trim_def)
qed

lemma non_decimal_digits: "all_digits ds \<Longrightarrow> non_decimal ds = None"
proof (cases ds)
  case Nil
  then show ?thesis by (simp add: non_decimal_def)
next
  case outer: (Cons z zs)
  assume a: "all_digits ds"
  show ?thesis
  proof (cases zs)
    case Nil
    with outer show ?thesis by (simp add: non_decimal_def)
  next
    case (Cons x xs)
    with outer a have "is_digit x" by (simp add: all_digits_def)
    from digit_not_sign [OF this] show ?thesis
      using outer Cons by (simp add: non_decimal_def)
  qed
qed

lemma unsigned_decimal_digits:
  "all_digits ds \<Longrightarrow> unsigned_decimal ds = Some (of_nat (radix_value 10 ds))"
proof -
  assume a: "all_digits ds"
  then have tw: "takeWhile is_digit ds = ds" "dropWhile is_digit ds = []" and ne: "ds \<noteq> []"
    by (simp_all add: all_digits_def takeWhile_all)
  have ex: "exponent_part [] = Some 0"
    by (simp add: exponent_part_def)
  have rv: "radix_value 10 [] = 0"
    by (simp add: radix_value_def)
  show ?thesis
    by (simp add: unsigned_decimal_def tw ne ex rv scale10_def)
qed

lemma str_decimal_digits:
  "all_digits ds \<Longrightarrow> str_decimal ds = Some (of_nat (radix_value 10 ds))"
proof -
  assume a: "all_digits ds"
  then obtain c cs where ds: "ds = c # cs" and c: "is_digit c"
    by (cases ds) (auto simp: all_digits_def)
  from digit_not_sign [OF c] have "str_decimal ds = unsigned_decimal ds"
    by (simp add: str_decimal_def ds)
  with a show ?thesis by (simp add: unsigned_decimal_digits)
qed

lemma Number_digits:
  "all_digits ds \<Longrightarrow> Number (Some ds) = Some (of_nat (radix_value 10 ds))"
proof -
  assume a: "all_digits ds"
  then have "ds \<noteq> []" by (simp add: all_digits_def)
  then show ?thesis
    using a by (simp add: Number_def trim_digits non_decimal_digits str_decimal_digits)
qed

lemma Number_undefined: "Number None = None"
  by (simp add: Number_def)

section \<open>The emote segmenter\<close>

subsection \<open>The parts are the rendered segments\<close>

lemma walk_render:
  "walk text cursor rs = map (render \<circ> span_segment text) (walk_spans (length text) cursor rs)"
  by (induction rs arbitrary: cursor) (simp_all add: slice_take_drop slice_from_take_drop)

lemma parts_render:
  "buildMessageHtmlParts text emotesTag = map render (segmenter text emotesTag)"
  by (simp add: buildMessageHtmlParts_def segmenter_def segment_spans_def walk_render Let_def)

text \<open>
  C3. For every message text, an empty emote specification yields exactly one part, the
  Literal segment of the whole input text (rendered by \<open>escapeHtml\<close>); this is the first
  branch of the function, taken before any range is parsed.
\<close>

theorem C3_empty_emotes_single_literal:
  "buildMessageHtmlParts text [] = [escapeHtml text]
   \<and> segmenter text [] = [Literal text]
   \<and> buildMessageHtmlParts text [] = map render [Literal text]"
  by (simp add: buildMessageHtmlParts_def segmenter_def segment_spans_def)

subsection \<open>Parsing the specification\<close>

text \<open>
  A well-formed specification is parsed into the ranges written in it, and these have
  whole offsets.
\<close>

lemma parse_loc_wf: "wf_loc loc \<Longrightarrow> parse_loc i loc = [loc_range i loc]"
proof -
  assume "wf_loc loc"
  then obtain a b where sp: "split_on CHR ''-'' loc = [a, b]"
    and ab: "all_digits a" "all_digits b"
    unfolding wf_loc_def by (auto split: list.splits)
  show ?thesis
    by (simp add: parse_loc_def loc_range_def sp elem_def Number_digits [OF ab(1)]
        Number_digits [OF ab(2)])
qed

lemma parse_locs_wf:
  "list_all wf_loc ls \<Longrightarrow> concat (map (parse_loc i) ls) = map (loc_range i) ls"
  by (induction ls) (simp_all add: parse_loc_wf)

lemma wf_loc_nonempty: "wf_loc loc \<Longrightarrow> loc \<noteq> []"
  by (auto simp: wf_loc_def split_on_def)

lemma parse_def_wf: "wf_group d \<Longrightarrow> parse_def d = group_ranges d"
proof -
  assume "wf_group d"
  then obtain i locs where sp: "split_on CHR '':'' d = [i, locs]" and i: "i \<noteq> []"
    and locs: "list_all wf_loc (split_on CHR '','' locs)"
    unfolding wf_group_def by (auto split: list.splits)
  have "locs \<noteq> []"
  proof
    assume "locs = []"
    then have "split_on CHR '','' locs = [[]]" by (simp add: split_on_def)
    with locs have "wf_loc []" by simp
    then show False using wf_loc_nonempty by blast
  qed
  then show ?thesis
    using i by (simp add: parse_def_def group_ranges_def sp elem_def falsy_def
        parse_locs_wf [OF locs])
qed

lemma wf_group_nonempty: "wf_group d \<Longrightarrow> d \<noteq> []"
  by (auto simp: wf_group_def split_on_def)

lemma parse_groups_wf:
  "list_all wf_group ds \<Longrightarrow>
   concat (map parse_def (filter (\<lambda>d. d \<noteq> []) ds)) = concat (map group_ranges ds)"
  by (induction ds) (simp_all add: parse_def_wf wf_group_nonempty)

lemma parse_ranges_wf: "wf_spec e \<Longrightarrow> parse_ranges e = spec_ranges e"
  by (simp add: wf_spec_def parse_ranges_def spec_ranges_def parse_groups_wf)

lemma is_offset_of_nat: "is_offset (of_nat n)"
  by (simp add: is_offset_def)

lemma spec_ranges_whole:
  "r \<in> set (spec_ranges e) \<Longrightarrow> is_offset (r_start r) \<and> is_offset (r_end r)"
  by (auto simp: spec_ranges_def group_ranges_def loc_range_def is_offset_of_nat Let_def)

text \<open>
  An entry without \<open>-\<close> and a group without \<open>:\<close> push nothing, and every range that was
  pushed gives one emote, in the order of the walk.
\<close>

lemma parse_loc_no_dash: "CHR ''-'' \<notin> set loc \<Longrightarrow> parse_loc i loc = []"
  by (simp add: parse_loc_def split_on_def split_cur_no_sep elem_def Number_undefined Let_def
           split: option.splits)

lemma parse_def_no_colon: "CHR '':'' \<notin> set d \<Longrightarrow> parse_def d = []"
  by (simp add: parse_def_def split_on_def split_cur_no_sep elem_def falsy_def)

lemma walk_spans_emotes:
  "[i. EmoteSpan i lo hi \<leftarrow> walk_spans len cursor rs] = map r_id rs"
  by (induction rs arbitrary: cursor) simp_all

text \<open>
  C7. A range entry with an empty offset is not skipped: \<open>Number("")\<close> is \<open>0\<close>, which is
  finite, so \<open>3-\<close> is pushed as the range from 3 to 0. The walk then emits the emote
  after \<open>abc\<close>, sets the cursor to 1, and the trailing Literal repeats \<open>bc\<close>.
\<close>

theorem C7_empty_offset_is_zero:
  "parse_ranges ''25:3-'' = [\<lparr>r_start = 3, r_end = 0, r_id = ''25''\<rparr>]
   \<and> segmenter ''abcdefgh'' ''25:3-'' = [Literal ''abc'', EmoteRef ''25'', Literal ''bcdefgh'']
   \<and> buildMessageHtmlParts ''abcdefgh'' ''25:3-'' = [''abc'', emote_img ''25'', ''bcdefgh'']"
  by code_simp

subsection \<open>Coverage\<close>

lemma ToInteger_of_nat: "ToIntegerOrInfinity (of_nat n) = int n"
  by (simp add: ToIntegerOrInfinity_def)

lemma rel_index_nat: "n \<le> len \<Longrightarrow> rel_index len (int n) = n"
  by (simp add: rel_index_def)

lemma cursor_index: "n \<le> len \<Longrightarrow> rel_index len (ToIntegerOrInfinity (of_nat n)) = n"
  by (simp add: ToInteger_of_nat rel_index_nat)

lemma is_offset_nat: "is_offset q \<Longrightarrow> \<exists>n. q = of_nat n"
proof -
  assume a: "is_offset q"
  then have "0 \<le> \<lfloor>q\<rfloor>" by (simp add: is_offset_def)
  then have "of_nat (nat \<lfloor>q\<rfloor>) = (of_int \<lfloor>q\<rfloor> :: rat)" by simp
  with a show ?thesis by (metis is_offset_def)
qed

lemma succ_offset: "of_nat e + 1 = (of_nat (Suc e) :: rat)"
  by simp

lemma walk_spans_step:
  assumes "r_start r = of_nat s" "r_end r = of_nat e" "c \<le> s" "s \<le> e" "e < len"
  shows "walk_spans len (of_nat c) (r # rs)
         = (if c < s then [LiteralSpan c s] else [])
           @ [EmoteSpan (r_id r) s (Suc e)] @ walk_spans len (of_nat (Suc e)) rs"
proof -
  have c: "rel_index len (ToIntegerOrInfinity (of_nat c)) = c"
    and s: "rel_index len (ToIntegerOrInfinity (of_nat s)) = s"
    and e: "rel_index len (ToIntegerOrInfinity (of_nat (Suc e))) = Suc e"
    using assms by (simp_all add: cursor_index del: of_nat_Suc)
  show ?thesis
    using assms(1,2) by (simp add: succ_offset c s e del: of_nat_Suc)
qed

lemma walk_spans_end:
  "c \<le> len \<Longrightarrow> walk_spans len (of_nat c) [] = (if c < len then [LiteralSpan c len] else [])"
  by (simp add: cursor_index)

lemma tiles_walk:
  "chained c len rs \<Longrightarrow> tiles c len (walk_spans len (of_nat c) rs)"
proof (induction rs arbitrary: c)
  case Nil
  then show ?case by (simp add: walk_spans_end del: walk_spans.simps)
next
  case (Cons r rs)
  then obtain s e where r: "r_start r = of_nat s" "r_end r = of_nat e"
    and ord: "c \<le> s" "s \<le> e" "e < len" and rest: "chained (Suc e) len rs"
    by auto
  have "tiles (Suc e) len (walk_spans len (of_nat (Suc e)) rs)"
    using Cons.IH rest by blast
  then show ?case
    using ord by (simp add: walk_spans_step [OF r ord] del: walk_spans.simps of_nat_Suc)
qed

lemma chained_starts:
  "chained c len rs \<Longrightarrow> r \<in> set rs \<Longrightarrow>
   \<exists>s e. r_start r = of_nat s \<and> r_end r = of_nat e \<and> c \<le> s \<and> s \<le> e \<and> e < len"
proof (induction rs arbitrary: c)
  case Nil
  then show ?case by simp
next
  case (Cons a rs)
  then obtain s e where a: "r_start a = of_nat s" "r_end a = of_nat e"
    and ord: "c \<le> s" "s \<le> e" "e < len" and rest: "chained (Suc e) len rs"
    by auto
  show ?case
  proof (cases "r = a")
    case True
    then show ?thesis using a ord by blast
  next
    case False
    then have "r \<in> set rs" using Cons.prems by simp
    from Cons.IH [OF rest this] obtain s' e' where
      "r_start r = of_nat s'" "r_end r = of_nat e'" "Suc e \<le> s'" "s' \<le> e'" "e' < len"
      by blast
    then show ?thesis using ord by (intro exI [of _ s'] exI [of _ e']) simp
  qed
qed

lemma covered_Cons:
  "covered (r # rs) i = ((r_start r \<le> of_nat i \<and> of_nat i \<le> r_end r) \<or> covered rs i)"
  by (simp add: covered_def)

lemma not_covered_before:
  assumes "chained c len rs" "i < c"
  shows "\<not> covered rs i"
proof
  assume "covered rs i"
  then obtain r where r: "r \<in> set rs" "r_start r \<le> of_nat i"
    by (auto simp: covered_def list_ex_iff)
  from chained_starts [OF assms(1) r(1)] obtain s where "r_start r = of_nat s" "c \<le> s"
    by blast
  with r(2) assms(2) show False by simp
qed

lemma literal_walk:
  "chained c (length text) rs \<Longrightarrow>
   concat (map (literal_text \<circ> span_segment text) (walk_spans (length text) (of_nat c) rs))
   = map (\<lambda>i. text ! i) (filter (\<lambda>i. \<not> covered rs i) [c..<length text])"
proof (induction rs arbitrary: c)
  case Nil
  then show ?case
    using drop_nths [of c "text"]
    by (simp add: walk_spans_end covered_def del: walk_spans.simps)
next
  case (Cons r rs)
  then obtain s e where r: "r_start r = of_nat s" "r_end r = of_nat e"
    and ord: "c \<le> s" "s \<le> e" "e < length text" and rest: "chained (Suc e) (length text) rs"
    by auto
  let ?keep = "\<lambda>i. \<not> covered (r # rs) i"
  have split: "[c..<length text] = [c..<s] @ [s..<Suc e] @ [Suc e..<length text]"
  proof -
    have a: "[c..<length text] = [c..<s] @ [s..<length text]"
      using ord by (intro upt_split) simp_all
    have b: "[s..<length text] = [s..<Suc e] @ [Suc e..<length text]"
      using ord by (intro upt_split) simp_all
    show ?thesis by (simp only: a b)
  qed
  have before: "filter ?keep [c..<s] = [c..<s]"
  proof (rule filter_True, clarify)
    fix i assume "i \<in> set [c..<s]" "covered (r # rs) i"
    then have "i < s" "covered (r # rs) i" by auto
    moreover have "\<not> covered rs i"
      using not_covered_before [OF rest] \<open>i < s\<close> ord by simp
    ultimately show False using r by (simp add: covered_Cons)
  qed
  have inside: "filter ?keep [s..<Suc e] = []"
    using r by (auto simp: filter_empty_conv covered_Cons)
  have after: "filter ?keep [Suc e..<length text] = filter (\<lambda>i. \<not> covered rs i) [Suc e..<length text]"
    using r by (intro filter_cong) (auto simp: covered_Cons)
  have lit: "take (s - c) (drop c text) = map (\<lambda>i. text ! i) [c..<s]"
    using ord by (simp add: slice_nths)
  have "concat (map (literal_text \<circ> span_segment text) (walk_spans (length text) (of_nat c) (r # rs)))
        = map (\<lambda>i. text ! i) [c..<s]
          @ concat (map (literal_text \<circ> span_segment text) (walk_spans (length text) (of_nat (Suc e)) rs))"
    using ord by (simp add: lit walk_spans_step [OF r ord] del: walk_spans.simps of_nat_Suc)
  also have "\<dots> = map (\<lambda>i. text ! i) [c..<s]
                  @ map (\<lambda>i. text ! i) (filter (\<lambda>i. \<not> covered rs i) [Suc e..<length text])"
    by (simp only: Cons.IH [OF rest])
  also have "\<dots> = map (\<lambda>i. text ! i) (filter ?keep [c..<length text])"
    by (simp only: split filter_append before inside after map_append append_Nil)
  finally show ?case .
qed

lemma disjoint_sym: "disjoint a b = disjoint b a"
  by (auto simp: disjoint_def)

lemma non_overlapping_insort:
  "non_overlapping (insort_key f x xs) = (list_all (disjoint x) xs \<and> non_overlapping xs)"
  by (induction xs) (auto simp: list_all_iff set_insort_key disjoint_sym)

lemma non_overlapping_sort: "non_overlapping (sort_key f xs) = non_overlapping xs"
  by (induction xs) (simp_all add: non_overlapping_insort list_all_iff)

lemma in_bounds_nat:
  assumes "in_bounds len r"
  obtains s e where "r_start r = of_nat s" "r_end r = of_nat e" "s \<le> e" "e < len"
proof -
  from assms obtain s e where se: "r_start r = of_nat s" "r_end r = of_nat e"
    using is_offset_nat unfolding in_bounds_def by blast
  with assms have "s \<le> e" "e < len"
    by (simp_all add: in_bounds_def)
  with se show ?thesis using that by blast
qed

lemma chained_sorted:
  "sorted (map r_start rs) \<Longrightarrow> list_all (in_bounds len) rs \<Longrightarrow> non_overlapping rs
   \<Longrightarrow> \<forall>r \<in> set rs. of_nat c \<le> r_start r \<Longrightarrow> c \<le> len \<Longrightarrow> chained c len rs"
proof (induction rs arbitrary: c)
  case Nil
  then show ?case by simp
next
  case (Cons r rs)
  from Cons.prems(2) have "in_bounds len r" by simp
  then obtain s e where se: "r_start r = of_nat s" "r_end r = of_nat e" "s \<le> e" "e < len"
    by (rule in_bounds_nat)
  have cs: "c \<le> s" using Cons.prems(4) se by simp
  have next_start: "\<forall>r' \<in> set rs. of_nat (Suc e) \<le> r_start r'"
  proof
    fix r' assume mem: "r' \<in> set rs"
    with Cons.prems(2) have "in_bounds len r'" by (simp add: list_all_iff)
    then obtain s' e' where se': "r_start r' = of_nat s'" "r_end r' = of_nat e'" "s' \<le> e'"
      by (rule in_bounds_nat)
    from Cons.prems(1) mem have "r_start r \<le> r_start r'" by auto
    then have "s \<le> s'" using se se' by simp
    moreover from Cons.prems(3) mem have "disjoint r r'" by (simp add: list_all_iff)
    ultimately have "e < s'" using se se' by (auto simp: disjoint_def)
    then show "of_nat (Suc e) \<le> r_start r'" using se' by simp
  qed
  have "chained (Suc e) len rs"
    using Cons.prems se next_start by (intro Cons.IH) simp_all
  then show ?case using se cs by auto
qed

lemma emote_spans_walk:
  "chained c len rs \<Longrightarrow> filter is_emote_span (walk_spans len (of_nat c) rs) = map range_span rs"
proof (induction rs arbitrary: c)
  case Nil
  then show ?case by (simp add: walk_spans_end del: walk_spans.simps)
next
  case (Cons r rs)
  then obtain s e where r: "r_start r = of_nat s" "r_end r = of_nat e"
    and ord: "c \<le> s" "s \<le> e" "e < len" and rest: "chained (Suc e) len rs"
    by auto
  have "range_span r = EmoteSpan (r_id r) s (Suc e)"
    using r by (simp add: range_span_def)
  then show ?case
    using Cons.IH [OF rest]
    by (simp add: walk_spans_step [OF r ord] del: walk_spans.simps of_nat_Suc)
qed

lemma covered_sort: "covered (sort_key f rs) i = covered rs i"
  by (simp add: covered_def list_ex_iff)

text \<open>
  C2. For every message text and every emote specification whose ranges have whole
  offsets, lie within the text and do not overlap, the spans of the returned segments
  tile \<open>[0, length text)\<close>: each span starts where the previous one ends, so there are
  no gaps and no overlaps; the emote spans are exactly the ranges \<open>[start, end + 1)\<close> in
  order of \<open>start\<close>; and the Literal texts, concatenated in order, are the text with
  every covered position removed. The parts returned by \<open>buildMessageHtmlParts\<close> are
  these segments rendered. The ranges are those the code parses; for a specification of
  the form \<open>id:start-end,...\<close> they are the ranges written in it, with whole offsets
  (\<open>parse_ranges_wf\<close>, \<open>spec_ranges_whole\<close>).
\<close>

theorem C2_segments_cover_text:
  assumes "list_all (in_bounds (length text)) (parse_ranges emotesTag)"
    and "non_overlapping (parse_ranges emotesTag)"
  shows "tiles 0 (length text) (segment_spans text emotesTag)
       \<and> filter is_emote_span (segment_spans text emotesTag)
           = map range_span (sort_key r_start (parse_ranges emotesTag))
       \<and> segmenter text emotesTag = map (span_segment text) (segment_spans text emotesTag)
       \<and> concat (map literal_text (segmenter text emotesTag))
           = uncovered_text text (parse_ranges emotesTag)
       \<and> buildMessageHtmlParts text emotesTag = map render (segmenter text emotesTag)"
proof (cases "parse_ranges emotesTag = []")
  case True
  then have spans: "segment_spans text emotesTag = [LiteralSpan 0 (length text)]"
    by (simp add: segment_spans_def)
  have "uncovered_text text [] = text"
    by (simp add: uncovered_text_def covered_def map_nth)
  then show ?thesis
    using True by (simp add: spans segmenter_def parts_render)
next
  case False
  let ?rs = "sort_key r_start (parse_ranges emotesTag)"
  from False have "emotesTag \<noteq> []"
    by (auto simp: parse_ranges_def split_on_def)
  with False have spans: "segment_spans text emotesTag = walk_spans (length text) (of_nat 0) ?rs"
    by (simp add: segment_spans_def)
  have ch: "chained 0 (length text) ?rs"
  proof (rule chained_sorted)
    show "sorted (map r_start ?rs)" by simp
    show "list_all (in_bounds (length text)) ?rs" using assms(1) by (simp add: list_all_iff)
    show "non_overlapping ?rs" using assms(2) by (simp add: non_overlapping_sort)
    show "\<forall>r \<in> set ?rs. of_nat 0 \<le> r_start r"
      using assms(1) by (auto simp: list_all_iff in_bounds_def is_offset_def)
  qed simp
  have lit: "concat (map literal_text (segmenter text emotesTag))
             = uncovered_text text (parse_ranges emotesTag)"
    using literal_walk [OF ch]
    by (simp add: segmenter_def spans uncovered_text_def covered_sort del: of_nat_0)
  show ?thesis
    using tiles_walk [OF ch] emote_spans_walk [OF ch] lit
    by (simp add: spans segmenter_def parts_render del: of_nat_0)
qed

text \<open>The example of the specification: \<open>LOL yay\<close> with emotes at 0-2 and 4-6.\<close>

theorem C2_segments_cover_text_witness:
  "wf_spec ''25:0-2/33:4-6''
   \<and> list_all (in_bounds (length ''LOL yay'')) (parse_ranges ''25:0-2/33:4-6'')
   \<and> non_overlapping (parse_ranges ''25:0-2/33:4-6'')
   \<and> segment_spans ''LOL yay'' ''25:0-2/33:4-6''
       = [EmoteSpan ''25'' 0 3, LiteralSpan 3 4, EmoteSpan ''33'' 4 7]
   \<and> tiles 0 (length ''LOL yay'') (segment_spans ''LOL yay'' ''25:0-2/33:4-6'')
   \<and> segmenter ''LOL yay'' ''25:0-2/33:4-6'' = [EmoteRef ''25'', Literal '' '', EmoteRef ''33'']
   \<and> concat (map literal_text (segmenter ''LOL yay'' ''25:0-2/33:4-6'')) = '' ''
   \<and> uncovered_text ''LOL yay'' (parse_ranges ''25:0-2/33:4-6'') = '' ''"
proof -
  have pr: "parse_ranges ''25:0-2/33:4-6''
            = [\<lparr>r_start = 0, r_end = 2, r_id = ''25''\<rparr>, \<lparr>r_start = 4, r_end = 6, r_id = ''33''\<rparr>]"
    by code_simp
  have h1: "list_all (in_bounds (length ''LOL yay'')) (parse_ranges ''25:0-2/33:4-6'')"
    by (simp add: pr in_bounds_def is_offset_def)
  have h2: "non_overlapping (parse_ranges ''25:0-2/33:4-6'')"
    by (simp add: pr disjoint_def)
  have spans: "segment_spans ''LOL yay'' ''25:0-2/33:4-6''
               = [EmoteSpan ''25'' 0 3, LiteralSpan 3 4, EmoteSpan ''33'' 4 7]"
    by code_simp
  have segs: "segmenter ''LOL yay'' ''25:0-2/33:4-6''
              = [EmoteRef ''25'', Literal '' '', EmoteRef ''33'']"
    by (simp add: segmenter_def spans)
  have wf: "wf_spec ''25:0-2/33:4-6''"
    by code_simp
  show ?thesis
    using C2_segments_cover_text [OF h1 h2] wf h1 h2 spans segs by simp
qed

subsection \<open>Literal parts\<close>

lemma span_segment_literal:
  "span_segment text sp = Literal t \<Longrightarrow> sublist t text"
  by (cases sp) (auto simp: sublist_take_drop)

text \<open>
  C9. Every Literal segment the segmenter emits holds a contiguous substring of the
  message text, and its part is that substring with each character replaced by its
  entity from the table \<open>entity\<close> (\<open>&\<close>, \<open><\<close>, \<open>>\<close>, the double and the single quote; any
  other character stays), so a literal part contains neither \<open><\<close> nor \<open>>\<close>.
\<close>

theorem C9_literal_parts_escaped:
  "buildMessageHtmlParts text emotesTag = map render (segmenter text emotesTag)
   \<and> (\<forall>seg \<in> set (segmenter text emotesTag). \<forall>t. seg = Literal t \<longrightarrow>
         sublist t text
         \<and> render seg = concat (map entity t)
         \<and> CHR ''<'' \<notin> set (render seg) \<and> CHR ''>'' \<notin> set (render seg))"
proof (intro conjI ballI allI impI)
  show "buildMessageHtmlParts text emotesTag = map render (segmenter text emotesTag)"
    by (rule parts_render)
next
  fix seg t
  assume mem: "seg \<in> set (segmenter text emotesTag)" and lit: "seg = Literal t"
  from mem obtain sp where "span_segment text sp = seg"
    by (auto simp: segmenter_def)
  with lit show "sublist t text"
    by (simp add: span_segment_literal)
  show "render seg = concat (map entity t)"
    using lit by (simp add: escapeHtml_entities)
  show "CHR ''<'' \<notin> set (render seg)" "CHR ''>'' \<notin> set (render seg)"
    using lit escapeHtml_no_angle [of t] by simp_all
qed

text \<open>A text with a \<open><\<close> before an emote at 4-6.\<close>

theorem C9_literal_parts_escaped_witness:
  "Literal ''a<b '' \<in> set (segmenter ''a<b yay'' ''25:4-6'')
   \<and> buildMessageHtmlParts ''a<b yay'' ''25:4-6'' = [''a&lt;b '', emote_img ''25'']
   \<and> sublist ''a<b '' ''a<b yay''
   \<and> render (Literal ''a<b '') = ''a&lt;b ''
   \<and> CHR ''<'' \<notin> set (render (Literal ''a<b ''))"
proof -
  have segs: "segmenter ''a<b yay'' ''25:4-6'' = [Literal ''a<b '', EmoteRef ''25'']"
    by code_simp
  have ent: "concat (map entity ''a<b '') = ''a&lt;b ''"
    by (simp add: entity_def)
  have ren: "map render [Literal ''a<b '', EmoteRef ''25''] = [''a&lt;b '', emote_img ''25'']"
    by (simp add: escapeHtml_def)
  show ?thesis
    using C9_literal_parts_escaped [of "''a<b yay''" "''25:4-6''"] segs ent ren
    by simp
qed

subsection \<open>Overlapping ranges\<close>

text \<open>
  C10. With the ranges 0-6 and 2-3 over the eight characters \<open>abcdefgh\<close>, the cursor
  goes from 7 back to 4 after the nested range, and the trailing Literal is \<open>efgh\<close>:
  the characters at 4, 5 and 6, which the wider emote covers, are emitted again.
\<close>

theorem C10_nested_range_reemits_text:
  "parse_ranges ''1:0-6/2:2-3''
     = [\<lparr>r_start = 0, r_end = 6, r_id = ''1''\<rparr>, \<lparr>r_start = 2, r_end = 3, r_id = ''2''\<rparr>]
   \<and> cursor_trace 0 (sort_key r_start (parse_ranges ''1:0-6/2:2-3'')) = [0, 7, 4]
   \<and> segment_spans ''abcdefgh'' ''1:0-6/2:2-3''
       = [EmoteSpan ''1'' 0 7, EmoteSpan ''2'' 2 4, LiteralSpan 4 8]
   \<and> buildMessageHtmlParts ''abcdefgh'' ''1:0-6/2:2-3''
       = [emote_img ''1'', emote_img ''2'', ''efgh'']"
  by code_simp

section \<open>Tags and lines\<close>

subsection \<open>The tag decoder\<close>

text \<open>
  For every key but \<open>__proto__\<close> the decoded object holds the value of the last segment
  with that key, and a segment without \<open>=\<close> has the empty value.
\<close>

lemma split_encode_tags:
  "kvs \<noteq> [] \<Longrightarrow> \<forall>(k, v) \<in> set kvs. CHR '';'' \<notin> set k \<and> CHR '';'' \<notin> set v
   \<Longrightarrow> split_on CHR '';'' (encode_tags kvs) = map (\<lambda>(k, v). k @ ''='' @ v) kvs"
proof (induction kvs rule: encode_tags.induct)
  case 1
  then show ?case by simp
next
  case (2 k v)
  then show ?case by (simp add: split_on_no_sep)
next
  case (3 k v kv kvs)
  have enc: "encode_tags ((k, v) # kv # kvs) = (k @ ''='' @ v) @ CHR '';'' # encode_tags (kv # kvs)"
    by simp
  have ns: "CHR '';'' \<notin> set (k @ ''='' @ v)"
    using "3.prems" by simp
  have "split_on CHR '';'' (encode_tags ((k, v) # kv # kvs))
        = (k @ ''='' @ v) # split_on CHR '';'' (encode_tags (kv # kvs))"
    unfolding enc by (rule split_on_sep [OF ns])
  then show ?case using "3.IH" "3.prems" by simp
qed

lemma indexOf_key:
  "CHR ''='' \<notin> set k \<Longrightarrow> indexOf (k @ ''='' @ v) ''='' = int (length k)"
  by (simp add: indexOf_char takeWhile_until)

lemma tag_key_pair: "CHR ''='' \<notin> set k \<Longrightarrow> tag_key (k @ ''='' @ v) = k"
  by (simp add: tag_key_def indexOf_key slice_def rel_index_def Let_def del: append.simps)

lemma tag_value_pair: "CHR ''='' \<notin> set k \<Longrightarrow> tag_value (k @ ''='' @ v) = v"
proof -
  assume a: "CHR ''='' \<notin> set k"
  have "slice_from (k @ ''='' @ v) (int (Suc (length k))) = drop (Suc (length k)) (k @ ''='' @ v)"
    by (rule slice_from_nat) simp
  then show ?thesis
    using a by (simp add: tag_value_def indexOf_key Let_def add.commute del: append.simps)
qed

lemma tag_without_eq: "CHR ''='' \<notin> set p \<Longrightarrow> tag_key p = p \<and> tag_value p = []"
  by (simp add: tag_key_def tag_value_def indexOf_char)

lemma parseTags_loop_lookup:
  "k \<noteq> ''__proto__'' \<Longrightarrow>
   parseTags_loop out ps k
   = (case map_of (rev (map (\<lambda>p. (tag_key p, tag_value p)) ps)) k of
        Some v \<Rightarrow> Some v | None \<Rightarrow> out k)"
proof (induction ps arbitrary: out)
  case Nil
  then show ?case by simp
next
  case (Cons p ps)
  show ?case
    using Cons.prems
    by (auto simp: Cons.IH set_property_def map_add_def split: option.splits)
qed

lemma parseTags_lookup:
  "k \<noteq> ''__proto__'' \<Longrightarrow>
   parseTags raw k = map_of (rev (map (\<lambda>p. (tag_key p, tag_value p)) (split_on CHR '';'' raw))) k"
  by (simp add: parseTags_def parseTags_loop_lookup split: option.splits)

lemma parseTags_encode_tags:
  assumes "kvs \<noteq> []"
    and "\<forall>(k, v) \<in> set kvs. CHR '';'' \<notin> set k \<and> CHR ''='' \<notin> set k \<and> CHR '';'' \<notin> set v"
    and "k \<noteq> ''__proto__''"
  shows "parseTags (encode_tags kvs) k = map_of (rev kvs) k"
proof -
  have sp: "split_on CHR '';'' (encode_tags kvs) = map (\<lambda>(k, v). k @ ''='' @ v) kvs"
    using assms(1,2) by (intro split_encode_tags) auto
  have "map (\<lambda>p. (tag_key p, tag_value p)) (map (\<lambda>(k, v). k @ ''='' @ v) kvs) = kvs"
    using assms(2) by (induction kvs) (auto simp: tag_key_pair tag_value_pair simp del: append.simps)
  then show ?thesis
    using assms(3) by (simp add: parseTags_lookup sp)
qed

text \<open>
  C5. A blob of the form \<open>k1=v1;k2=v2\<close> whose first key is \<open>__proto__\<close>: after decoding,
  the object has no own property of that name, and reading it gives the inherited
  prototype object, not the value \<open>x\<close>. The other key is stored as usual.
\<close>

theorem C5_proto_key_is_lost:
  "encode_tags [(''__proto__'', ''x''), (''color'', ''#fff'')] = ''__proto__=x;color=#fff''
   \<and> parseTags ''__proto__=x;color=#fff'' ''__proto__'' = None
   \<and> get_property (parseTags ''__proto__=x;color=#fff'') ''__proto__'' = Inherited
   \<and> parseTags ''__proto__=x;color=#fff'' ''color'' = Some ''#fff''"
  by code_simp

subsection \<open>Lines without a message\<close>

lemma startsWith_at: "startsWith line ''@'' = (line \<noteq> [] \<and> hd line = CHR ''@'')"
  by (cases line) (auto simp: startsWith_def)

lemma working_line_startsWith:
  "spec_working_line line
   = (if startsWith line ''@'' then drop 1 (dropWhile (\<lambda>c. c \<noteq> CHR '' '') line) else line)"
  unfolding spec_working_line_def startsWith_at ..

lemma rest_with_space:
  assumes "startsWith line ''@''" "CHR '' '' \<in> set line"
  shows "snd (strip_tags line) = drop 1 (dropWhile (\<lambda>c. c \<noteq> CHR '' '') line)"
proof -
  let ?n = "length (takeWhile (\<lambda>c. c \<noteq> CHR '' '') line)"
  have idx: "indexOf line '' '' = int ?n"
    using assms(2) by (simp add: indexOf_char)
  have "Suc ?n \<le> length line"
    using first_space_index [OF assms(2)] by simp
  then have "slice_from line (int (Suc ?n)) = drop (Suc ?n) line"
    by (rule slice_from_nat)
  moreover have "drop (Suc ?n) line = drop 1 (dropWhile (\<lambda>c. c \<noteq> CHR '' '') line)"
    by (simp add: dropWhile_eq_drop)
  moreover have "snd (strip_tags line) = slice_from line (int (Suc ?n))"
    using assms(1) by (simp add: strip_tags_def idx Let_def add.commute)
  ultimately show ?thesis by simp
qed

lemma rest_without_space:
  assumes "CHR '' '' \<notin> set line"
  shows "snd (strip_tags line) = line"
proof -
  have idx: "indexOf line '' '' = - 1"
    using assms by (simp add: indexOf_char)
  have "slice_from line 0 = line"
    by (simp add: slice_from_def rel_index_def)
  then show ?thesis
    by (simp add: strip_tags_def idx Let_def)
qed

lemma rest_without_at: "\<not> startsWith line ''@'' \<Longrightarrow> snd (strip_tags line) = line"
  by (simp add: strip_tags_def)

lemma rest_is_working_line:
  "sublist '' :'' (snd (strip_tags line)) = sublist '' :'' (spec_working_line line)"
proof (cases "startsWith line ''@''")
  case False
  then show ?thesis
    by (simp add: rest_without_at working_line_startsWith)
next
  case at: True
  show ?thesis
  proof (cases "CHR '' '' \<in> set line")
    case True
    with at show ?thesis
      by (simp only: rest_with_space working_line_startsWith if_True)
  next
    case False
    then have none: "\<not> sublist '' :'' line"
      using sublist_needs_first [of "CHR '' ''" "'':''" line] by blast
    have dw: "dropWhile (\<lambda>c. c \<noteq> CHR '' '') line = []"
      using False by auto
    have "spec_working_line line = []"
      by (simp only: working_line_startsWith at if_True dw drop_Nil)
    then show ?thesis
      using none by (simp add: rest_without_space [OF False])
  qed
qed

lemma parsePrivmsg_null_iff:
  "(parsePrivmsg line = None) = (\<not> sublist '' :'' (spec_working_line line))"
proof (cases "strip_tags line")
  case (Pair tags rest)
  with rest_is_working_line [of line]
  have "sublist '' :'' rest = sublist '' :'' (spec_working_line line)"
    by simp
  with Pair show ?thesis
    by (simp add: parsePrivmsg_def indexOf_absent Let_def)
qed

text \<open>
  C6. For every line whose working portion (the line, or what follows the first space
  when the line starts with \<open>@\<close>) does not contain \<open>" :"\<close>, \<open>parsePrivmsg\<close> returns
  \<open>null\<close>. The function is total: none of its steps can throw.
\<close>

theorem C6_no_marker_no_event:
  "\<not> sublist '' :'' (spec_working_line line) \<Longrightarrow> parsePrivmsg line = None"
  by (simp add: parsePrivmsg_null_iff)

text \<open>A tagged control line without a message marker.\<close>

theorem C6_no_marker_no_event_witness:
  "\<not> sublist '' :'' (spec_working_line ''@badges=;color= PING'')
   \<and> spec_working_line ''@badges=;color= PING'' = ''PING''
   \<and> parsePrivmsg ''@badges=;color= PING'' = None"
proof -
  have w: "spec_working_line ''@badges=;color= PING'' = ''PING''"
    by (simp add: spec_working_line_def)
  have h: "\<not> sublist '' :'' (spec_working_line ''@badges=;color= PING'')"
    by (simp add: w sublist_Cons_right)
  show ?thesis
    using C6_no_marker_no_event [OF h] h w by simp
qed

section \<open>Badge resolution\<close>

lemma badge_loop_resolve: "badge_loop cm gm keys = List.map_filter (resolve cm gm) keys"
proof (induction keys)
  case Nil
  then show ?case by (simp add: List.map_filter_simps)
next
  case (Cons key keys)
  have "js_or (map_get cm key) (map_get gm key) = None \<Longrightarrow> resolve cm gm key = None"
    by (auto simp: js_or_def map_get_def falsy_def resolve_def usable_def
        split: option.splits if_splits)
  moreover have "js_or (map_get cm key) (map_get gm key) = Some [] \<Longrightarrow> resolve cm gm key = None"
    by (auto simp: js_or_def map_get_def falsy_def resolve_def usable_def
        split: option.splits if_splits)
  moreover have "\<And>url. js_or (map_get cm key) (map_get gm key) = Some url \<Longrightarrow> url \<noteq> []
                 \<Longrightarrow> resolve cm gm key = Some url"
    by (auto simp: js_or_def map_get_def falsy_def resolve_def usable_def
        split: option.splits if_splits)
  ultimately show ?case
    using Cons.IH by (auto simp: List.map_filter_simps split: option.splits)
qed

lemma resolve_clean:
  "clean_at cm key \<Longrightarrow> clean_at gm key \<Longrightarrow> resolve cm gm key = spec_resolve cm gm key"
  by (auto simp: clean_at_def resolve_def usable_def spec_resolve_def falsy_def
      split: option.splits)

lemma map_filter_cong_list:
  "\<forall>x \<in> set xs. f x = g x \<Longrightarrow> List.map_filter f xs = List.map_filter g xs"
proof (induction xs)
  case Nil
  then show ?case by simp
next
  case (Cons a xs)
  then have "f a = g a" and "List.map_filter f xs = List.map_filter g xs"
    by simp_all
  then show ?case
    by (simp only: List.map_filter_simps)
qed

lemma length_map_filter_le: "length (List.map_filter f xs) \<le> length xs"
  by (induction xs) (auto split: option.splits)

text \<open>
  C4, as stated, fails where the channel table holds an empty string for the key: the
  claim resolves the key to the channel table's value, the code to the global one.
\<close>

theorem C4_empty_url_falls_through:
  "buildBadgesFragment
     \<lparr>global = Some [''sub/1'' \<mapsto> Some ''g''],
      channels = [''42'' \<mapsto> [''sub/1'' \<mapsto> Some '''']],
      globalLoaded = True\<rparr> [''sub/1''] ''42'' = [''g'']
   \<and> List.map_filter (spec_resolve [''sub/1'' \<mapsto> Some ''''] [''sub/1'' \<mapsto> Some ''g''])
        [''sub/1''] = ['''']"
  by (simp add: buildBadgesFragment_def chanMap_def globalMap_def js_or_def map_get_def
      falsy_def spec_resolve_def List.map_filter_simps)

text \<open>
  C4, amended. For every list of keys, room identifier and cache, the fragment holds the
  resolved image references in the order of the keys, where a key resolves to the value
  of the channel table when that value is a non-empty string, otherwise to the value of
  the global table when that is a non-empty string, and is left out otherwise; no
  channel table is read for an empty room identifier. So the output is no longer than
  the input, and where no table holds an empty or undefined value for a key of the
  list, this is the resolution the specification states: channel first, then global.
\<close>

theorem C4_badge_resolution:
  "buildBadgesFragment cache keys bid
     = List.map_filter (resolve (chanMap cache bid) (globalMap cache)) keys
   \<and> length (buildBadgesFragment cache keys bid) \<le> length keys
   \<and> (list_all (\<lambda>key. clean_at (chanMap cache bid) key
                        \<and> clean_at (globalMap cache) key) keys
        \<longrightarrow> buildBadgesFragment cache keys bid
             = List.map_filter (spec_resolve (chanMap cache bid) (globalMap cache)) keys)"
proof -
  let ?cm = "chanMap cache bid" and ?gm = "globalMap cache"
  have eq: "buildBadgesFragment cache keys bid = List.map_filter (resolve ?cm ?gm) keys"
    by (simp add: buildBadgesFragment_def badge_loop_resolve)
  have "list_all (\<lambda>key. clean_at ?cm key \<and> clean_at ?gm key) keys
        \<Longrightarrow> List.map_filter (resolve ?cm ?gm) keys = List.map_filter (spec_resolve ?cm ?gm) keys"
    by (intro map_filter_cong_list) (simp add: list_all_iff resolve_clean)
  then show ?thesis
    using eq length_map_filter_le [of "resolve ?cm ?gm" keys] by simp
qed

text \<open>A key in the global table only, a key in neither, a key in both.\<close>

theorem C4_badge_resolution_witness:
  "list_all (\<lambda>key. clean_at [''sub/6'' \<mapsto> Some ''c6''] key
                   \<and> clean_at [''sub/6'' \<mapsto> Some ''g6'', ''mod/1'' \<mapsto> Some ''g1''] key)
     [''mod/1'', ''vip/1'', ''sub/6'']
   \<and> buildBadgesFragment
       \<lparr>global = Some [''sub/6'' \<mapsto> Some ''g6'', ''mod/1'' \<mapsto> Some ''g1''],
        channels = [''42'' \<mapsto> [''sub/6'' \<mapsto> Some ''c6'']],
        globalLoaded = True\<rparr> [''mod/1'', ''vip/1'', ''sub/6''] ''42''
     = [''g1'', ''c6'']"
proof -
  let ?cache = "\<lparr>global = Some [''sub/6'' \<mapsto> Some ''g6'', ''mod/1'' \<mapsto> Some ''g1''],
                 channels = [''42'' \<mapsto> [''sub/6'' \<mapsto> Some ''c6'']],
                 globalLoaded = True\<rparr>"
  have cm: "chanMap ?cache ''42'' = [''sub/6'' \<mapsto> Some ''c6'']"
    by (simp add: chanMap_def)
  have gm: "globalMap ?cache = [''sub/6'' \<mapsto> Some ''g6'', ''mod/1'' \<mapsto> Some ''g1'']"
    by (simp add: globalMap_def)
  have h: "list_all (\<lambda>key. clean_at (chanMap ?cache ''42'') key \<and> clean_at (globalMap ?cache) key)
             [''mod/1'', ''vip/1'', ''sub/6'']"
    by (simp add: cm gm clean_at_def falsy_def)
  have v: "List.map_filter (spec_resolve [''sub/6'' \<mapsto> Some ''c6'']
             [''sub/6'' \<mapsto> Some ''g6'', ''mod/1'' \<mapsto> Some ''g1''])
             [''mod/1'', ''vip/1'', ''sub/6''] = [''g1'', ''c6'']"
    by (simp add: spec_resolve_def)
  have "buildBadgesFragment ?cache [''mod/1'', ''vip/1'', ''sub/6''] ''42''
        = List.map_filter (spec_resolve (chanMap ?cache ''42'') (globalMap ?cache))
            [''mod/1'', ''vip/1'', ''sub/6'']"
    using C4_badge_resolution [of ?cache "[''mod/1'', ''vip/1'', ''sub/6'']" "''42''"] h
    by blast
  then have r: "buildBadgesFragment ?cache [''mod/1'', ''vip/1'', ''sub/6''] ''42'' = [''g1'', ''c6'']"
    unfolding cm gm v .
  from h have h': "list_all (\<lambda>key. clean_at [''sub/6'' \<mapsto> Some ''c6''] key
                   \<and> clean_at [''sub/6'' \<mapsto> Some ''g6'', ''mod/1'' \<mapsto> Some ''g1''] key)
                    [''mod/1'', ''vip/1'', ''sub/6'']"
    unfolding cm gm .
  from h' r show ?thesis by (rule conjI)
qed

section \<open>The badge cache under concurrent calls\<close>

text \<open>
  C1. Three calls for the same unseen room, made before any response arrives: the first
  sets \<open>globalLoaded\<close> and fetches the global table; the second and the third find the
  room missing from \<open>channels\<close> and each fetch its table; when the first goes on after the
  global response it fetches the room's table a third time. The global slot is fetched
  once, the channel slot three times.
\<close>

theorem C1_concurrent_calls_fetch_again:
  "fetches (run ''https://proxy'' [Call ''42'', Call ''42'', Call ''42''] initial)
     = [GlobalSlot, ChannelSlot ''42'', ChannelSlot ''42'']
   \<and> map suspended (calls (run ''https://proxy'' [Call ''42'', Call ''42'', Call ''42''] initial))
     = [AwaitGlobalFetch, AwaitChannelFetch, AwaitChannelFetch]
   \<and> fetches (run ''https://proxy''
                [Call ''42'', Call ''42'', Call ''42'', Settle 0 (Response False)] initial)
     = [GlobalSlot, ChannelSlot ''42'', ChannelSlot ''42'', ChannelSlot ''42'']
   \<and> count_list (fetches (run ''https://proxy''
                [Call ''42'', Call ''42'', Call ''42'', Settle 0 (Response False)] initial))
        (ChannelSlot ''42'') = 3"
  by code_simp

text \<open>
  C8. Two fetches for room 42 are in flight. The first fails: the slot holds an empty
  table and the key resolves to nothing. The second then succeeds and replaces the
  table, so the same key now resolves to a badge: the slot did not stay empty.
\<close>

theorem C8_failed_slot_is_overwritten:
  "fetches (run ''https://proxy''
      [Call ''42'', Settle 0 (Response False), Call ''42'', Settle 0 Rejected] initial)
     = [GlobalSlot, ChannelSlot ''42'', ChannelSlot ''42'']
   \<and> map_option (\<lambda>m. m ''subscriber/6'') (channels (badgeCache (run ''https://proxy''
      [Call ''42'', Settle 0 (Response False), Call ''42'', Settle 0 Rejected] initial)) ''42'')
     = Some None
   \<and> buildBadgesFragment (badgeCache (run ''https://proxy''
      [Call ''42'', Settle 0 (Response False), Call ''42'', Settle 0 Rejected] initial))
      [''subscriber/6''] ''42'' = []
   \<and> buildBadgesFragment (badgeCache (run ''https://proxy''
      [Call ''42'', Settle 0 (Response False), Call ''42'', Settle 0 Rejected,
       Settle 1 (Response True),
       Settle 1 (Body (Some [\<lparr>set_id = ''subscriber'',
                               versions = Some [\<lparr>v_id = ''6'', image_url_2x = Some ''u2'',
                                                 image_url_1x = Some ''u1''\<rparr>]\<rparr>]))] initial))
      [''subscriber/6''] ''42'' = [''u2'']"
proof (intro conjI)
  let ?evs = "[Call ''42'', Settle 0 (Response False), Call ''42'', Settle 0 Rejected]"
  show "fetches (run ''https://proxy'' ?evs initial)
        = [GlobalSlot, ChannelSlot ''42'', ChannelSlot ''42'']"
    by code_simp
  show "map_option (\<lambda>m. m ''subscriber/6'')
          (channels (badgeCache (run ''https://proxy'' ?evs initial)) ''42'') = Some None"
    by code_simp
  show "buildBadgesFragment (badgeCache (run ''https://proxy'' ?evs initial))
          [''subscriber/6''] ''42'' = []"
    by code_simp
  show "buildBadgesFragment (badgeCache (run ''https://proxy''
      [Call ''42'', Settle 0 (Response False), Call ''42'', Settle 0 Rejected,
       Settle 1 (Response True),
       Settle 1 (Body (Some [\<lparr>set_id = ''subscriber'',
                               versions = Some [\<lparr>v_id = ''6'', image_url_2x = Some ''u2'',
                                                 image_url_1x = Some ''u1''\<rparr>]\<rparr>]))] initial))
      [''subscriber/6''] ''42'' = [''u2'']"
    by code_simp
qed

subsection \<open>What holds of the slots\<close>

text \<open>
  The global table is fetched at most once. A channel slot that holds a table is never
  fetched again, and keeps its table for ever when no fetch for it is in flight. The
  global slot, once written, keeps its table for ever.
\<close>

lemmas cache_steps =
  start_call_def resume_def continue_def channel_part_def move_to_def set_global_def
  set_channel_def Let_def

lemma resume_globalLoaded:
  "globalLoaded (badgeCache (resume i r st)) = globalLoaded (badgeCache st)"
  by (simp add: cache_steps split: pc.splits settled.splits bool.splits option.splits)

lemma resume_global_fetches:
  "count_list (fetches (resume i r st)) GlobalSlot = count_list (fetches st) GlobalSlot"
  by (simp add: cache_steps split: pc.splits settled.splits bool.splits option.splits)

lemma start_call_global_fetches:
  "count_list (fetches (start_call p bid st)) GlobalSlot
   = (if p \<noteq> [] \<and> \<not> globalLoaded (badgeCache st) then Suc (count_list (fetches st) GlobalSlot)
      else count_list (fetches st) GlobalSlot)"
  by (simp add: cache_steps split: option.splits)

lemma start_call_globalLoaded:
  "globalLoaded (badgeCache (start_call p bid st))
   = (globalLoaded (badgeCache st) \<or> p \<noteq> [])"
  by (simp add: cache_steps split: option.splits)

lemma global_once_step: "global_once st \<Longrightarrow> global_once (step p st ev)"
  by (cases ev)
     (auto simp: global_once_def resume_globalLoaded resume_global_fetches
        start_call_global_fetches start_call_globalLoaded)

lemma global_once_run: "global_once st \<Longrightarrow> global_once (run p evs st)"
  unfolding run_def by (induction evs arbitrary: st) (simp_all add: global_once_step)

lemma global_fetched_once:
  "count_list (fetches (run p evs initial)) GlobalSlot \<le> 1"
proof -
  have "global_once initial" by (simp add: global_once_def initial_def)
  then have "global_once (run p evs initial)" by (rule global_once_run)
  then show ?thesis by (simp add: global_once_def)
qed

lemma stored_channel_step:
  assumes "channels (badgeCache st) bid = Some m"
  shows "count_list (fetches (step p st ev)) (ChannelSlot bid)
         = count_list (fetches st) (ChannelSlot bid)
       \<and> (\<exists>m'. channels (badgeCache (step p st ev)) bid = Some m')"
  using assms
  by (cases ev)
     (auto simp: cache_steps split: pc.splits settled.splits bool.splits option.splits)

lemma stored_channel_not_refetched:
  "channels (badgeCache st) bid = Some m \<Longrightarrow>
   count_list (fetches (run p evs st)) (ChannelSlot bid) = count_list (fetches st) (ChannelSlot bid)"
proof (induction evs arbitrary: st m)
  case Nil
  then show ?case by (simp add: run_def)
next
  case (Cons ev evs)
  from stored_channel_step [OF Cons.prems, of p ev]
  obtain m' where cnt: "count_list (fetches (step p st ev)) (ChannelSlot bid)
                        = count_list (fetches st) (ChannelSlot bid)"
    and st': "channels (badgeCache (step p st ev)) bid = Some m'"
    by blast
  have "run p (ev # evs) st = run p evs (step p st ev)"
    by (simp add: run_def)
  then show ?case
    using Cons.IH [OF st'] cnt by simp
qed

lemmas continue_steps = continue_def channel_part_def set_global_def set_channel_def Let_def

lemma continue_calls: "calls (fst (continue c r st)) = calls st"
  by (simp add: continue_steps split: pc.splits settled.splits bool.splits option.splits)

lemma continue_channels:
  "\<not> (broadcasterId c = b \<and> channel_waiting c) \<Longrightarrow>
   channels (badgeCache (fst (continue c r st))) b = channels (badgeCache st) b"
  by (auto simp: continue_steps channel_waiting_def
      split: pc.splits settled.splits bool.splits option.splits)

lemma continue_channel_waiting:
  "snd (continue c r st) = AwaitChannelFetch \<or> snd (continue c r st) = AwaitChannelJson \<Longrightarrow>
   channel_waiting c \<or> channels (badgeCache st) (broadcasterId c) = None"
  by (auto simp: continue_steps channel_waiting_def
      split: pc.splits settled.splits bool.splits option.splits if_splits)

lemma resume_calls:
  "i < length (calls st) \<Longrightarrow>
   calls (resume i r st)
   = (calls st)[i := (calls st ! i)\<lparr>suspended := snd (continue (calls st ! i) r st)\<rparr>]"
  using continue_calls [of "calls st ! i" r st]
  by (cases "continue (calls st ! i) r st") (simp add: resume_def move_to_def)

lemma resume_cache:
  "i < length (calls st) \<Longrightarrow>
   badgeCache (resume i r st) = badgeCache (fst (continue (calls st ! i) r st))"
  by (cases "continue (calls st ! i) r st") (simp add: resume_def move_to_def)

lemma settled_slot_start: "settled_slot bid m st \<Longrightarrow> settled_slot bid m (start_call p b st)"
  by (auto simp: settled_slot_def in_flight_def channel_waiting_def start_call_def
      channel_part_def Let_def split: option.splits)

lemma settled_slot_resume:
  assumes "settled_slot bid m st"
  shows "settled_slot bid m (resume i r st)"
proof (cases "i < length (calls st)")
  case False
  then show ?thesis using assms by (simp add: resume_def)
next
  case True
  let ?c = "calls st ! i"
  let ?p = "snd (continue ?c r st)"
  have stored: "channels (badgeCache st) bid = Some m" and nf: "\<not> in_flight bid st"
    using assms by (simp_all add: settled_slot_def)
  have mem: "?c \<in> set (calls st)" using True by simp
  with nf have quiet: "\<not> (broadcasterId ?c = bid \<and> channel_waiting ?c)"
    by (auto simp: in_flight_def list_ex_iff)
  have cache: "channels (badgeCache (resume i r st)) bid = Some m"
    using continue_channels [OF quiet] stored by (simp add: resume_cache [OF True])
  have "\<not> in_flight bid (resume i r st)"
  proof
    assume "in_flight bid (resume i r st)"
    then obtain c' where c': "c' \<in> set ((calls st)[i := ?c\<lparr>suspended := ?p\<rparr>])"
      "broadcasterId c' = bid" "channel_waiting c'"
      by (auto simp: in_flight_def list_ex_iff resume_calls [OF True])
    from c'(1) have "c' = ?c\<lparr>suspended := ?p\<rparr> \<or> c' \<in> set (calls st)"
      using set_update_subset_insert by fastforce
    then show False
    proof
      assume "c' \<in> set (calls st)"
      with c' nf show False by (auto simp: in_flight_def list_ex_iff)
    next
      assume eq: "c' = ?c\<lparr>suspended := ?p\<rparr>"
      with c' have bid: "broadcasterId ?c = bid"
        and "?p = AwaitChannelFetch \<or> ?p = AwaitChannelJson"
        by (simp_all add: channel_waiting_def)
      from continue_channel_waiting [OF this(2)] bid stored quiet show False by simp
    qed
  qed
  with cache show ?thesis by (simp add: settled_slot_def)
qed

lemma settled_slot_run: "settled_slot bid m st \<Longrightarrow> settled_slot bid m (run p evs st)"
proof (induction evs arbitrary: st)
  case Nil
  then show ?case by (simp add: run_def)
next
  case (Cons ev evs)
  have "settled_slot bid m (step p st ev)"
    using Cons.prems by (cases ev) (simp_all add: settled_slot_start settled_slot_resume)
  then have "settled_slot bid m (run p evs (step p st ev))" by (rule Cons.IH)
  then show ?case by (simp add: run_def)
qed

lemma continue_loaded:
  "globalLoaded (badgeCache (fst (continue c r st))) = globalLoaded (badgeCache st)"
  by (simp add: continue_steps split: pc.splits settled.splits bool.splits option.splits)

lemma continue_global_quiet:
  "\<not> global_waiting c \<Longrightarrow>
   global (badgeCache (fst (continue c r st))) = global (badgeCache st)"
  by (auto simp: continue_steps global_waiting_def
      split: pc.splits settled.splits bool.splits option.splits)

lemma continue_global_pc:
  "snd (continue c r st) = AwaitGlobalFetch \<or> snd (continue c r st) = AwaitGlobalJson \<Longrightarrow>
   global_waiting c \<and> global (badgeCache (fst (continue c r st))) = global (badgeCache st)"
  by (auto simp: continue_steps global_waiting_def
      split: pc.splits settled.splits bool.splits option.splits if_splits)

lemma waits_global_resume:
  assumes "i < length (calls st)"
  shows "waits_global (resume i r st) j
         = (if j = i then global_waiting ((calls st ! i)\<lparr>suspended := snd (continue (calls st ! i) r st)\<rparr>)
            else waits_global st j)"
  using assms by (auto simp: waits_global_def resume_calls)

lemma global_inv_resume:
  assumes "global_inv st"
  shows "global_inv (resume i r st)"
proof (cases "i < length (calls st)")
  case False
  then show ?thesis using assms by (simp add: resume_def)
next
  case True
  let ?c = "calls st ! i"
  let ?st' = "fst (continue ?c r st)"
  let ?p = "snd (continue ?c r st)"
  have loaded: "globalLoaded (badgeCache (resume i r st)) = globalLoaded (badgeCache st)"
    by (simp add: resume_cache [OF True] continue_loaded)
  have glob: "global (badgeCache (resume i r st)) = global (badgeCache ?st')"
    by (simp add: resume_cache [OF True])
  have new_i: "waits_global (resume i r st) i = (?p = AwaitGlobalFetch \<or> ?p = AwaitGlobalJson)"
    by (simp add: waits_global_resume [OF True] global_waiting_def)
  have other: "\<And>j. j \<noteq> i \<Longrightarrow> waits_global (resume i r st) j = waits_global st j"
    by (simp add: waits_global_resume [OF True])
  show ?thesis
  proof (cases "global_waiting ?c")
    case False
    then have "global (badgeCache ?st') = global (badgeCache st)"
      by (rule continue_global_quiet)
    moreover have "\<not> waits_global (resume i r st) i"
      using continue_global_pc [of ?c r st] False new_i by blast
    moreover have "\<not> waits_global st i"
      using False by (simp add: waits_global_def)
    ultimately show ?thesis
      using assms loaded glob other unfolding global_inv_def by metis
  next
    case w: True
    then have wi: "waits_global st i" using True by (simp add: waits_global_def)
    with assms have only: "\<And>j. waits_global st j \<Longrightarrow> j = i"
      unfolding global_inv_def by blast
    from wi assms have was_loaded: "globalLoaded (badgeCache st)"
      and none: "global (badgeCache st) = None"
      unfolding global_inv_def by blast+
    have others_quiet: "\<And>j. j \<noteq> i \<Longrightarrow> \<not> waits_global (resume i r st) j"
      using other only by blast
    show ?thesis
    proof (cases "?p = AwaitGlobalFetch \<or> ?p = AwaitGlobalJson")
      case True
      then have "global (badgeCache ?st') = None"
        using continue_global_pc [OF True] none by simp
      then show ?thesis
        using was_loaded loaded glob others_quiet unfolding global_inv_def by metis
    next
      case False
      then have "\<And>j. \<not> waits_global (resume i r st) j"
        using new_i others_quiet by metis
      then show ?thesis
        using was_loaded loaded unfolding global_inv_def by simp
    qed
  qed
qed

lemma global_inv_start:
  assumes "global_inv st"
  shows "global_inv (start_call p b st)"
proof (cases "p = []")
  case True
  then have "\<And>j. waits_global (start_call p b st) j = waits_global st j"
    by (auto simp: waits_global_def start_call_def global_waiting_def nth_append)
  moreover have "badgeCache (start_call p b st) = badgeCache st"
    using True by (simp add: start_call_def)
  ultimately show ?thesis using assms by (simp add: global_inv_def)
next
  case proxy: False
  show ?thesis
  proof (cases "globalLoaded (badgeCache st)")
    case True
    have "\<And>j. waits_global (start_call p b st) j = waits_global st j"
      using proxy True
      by (auto simp: waits_global_def start_call_def channel_part_def global_waiting_def
          nth_append Let_def split: option.splits)
    moreover have "badgeCache (start_call p b st) = badgeCache st"
      using proxy True
      by (simp add: start_call_def channel_part_def Let_def split: option.splits)
    ultimately show ?thesis using assms by (simp add: global_inv_def)
  next
    case False
    with assms have none: "global (badgeCache st) = None" and quiet: "\<And>j. \<not> waits_global st j"
      unfolding global_inv_def by blast+
    have "\<And>j. waits_global (start_call p b st) j = (j = length (calls st))"
      using proxy False quiet
      by (auto simp: waits_global_def start_call_def global_waiting_def nth_append)
    moreover have "global (badgeCache (start_call p b st)) = None"
      "globalLoaded (badgeCache (start_call p b st))"
      using proxy False none by (simp_all add: start_call_def)
    ultimately show ?thesis by (simp add: global_inv_def)
  qed
qed

lemma global_inv_run: "global_inv st \<Longrightarrow> global_inv (run p evs st)"
proof (induction evs arbitrary: st)
  case Nil
  then show ?case by (simp add: run_def)
next
  case (Cons ev evs)
  have "global_inv (step p st ev)"
    using Cons.prems by (cases ev) (simp_all add: global_inv_start global_inv_resume)
  then have "global_inv (run p evs (step p st ev))" by (rule Cons.IH)
  then show ?case by (simp add: run_def)
qed

lemma global_inv_initial: "global_inv initial"
  by (simp add: global_inv_def initial_def waits_global_def)

lemma global_kept_step:
  assumes "global_inv st" "global (badgeCache st) = Some m"
  shows "global (badgeCache (step p st ev)) = Some m"
proof (cases ev)
  case (Call b)
  have "global (badgeCache (start_call p b st)) = global (badgeCache st)"
    by (simp add: start_call_def channel_part_def Let_def split: option.splits)
  with Call assms(2) show ?thesis by simp
next
  case (Settle i r)
  show ?thesis
  proof (cases "i < length (calls st)")
    case False
    then show ?thesis using Settle assms(2) by (simp add: resume_def)
  next
    case True
    from assms have "\<not> waits_global st i"
      unfolding global_inv_def by simp
    with True have "\<not> global_waiting (calls st ! i)"
      by (simp add: waits_global_def)
    then show ?thesis
      using Settle assms(2) by (simp add: resume_cache [OF True] continue_global_quiet)
  qed
qed

lemma global_kept_run:
  "global_inv st \<Longrightarrow> global (badgeCache st) = Some m \<Longrightarrow>
   global (badgeCache (run p evs st)) = Some m"
proof (induction evs arbitrary: st)
  case Nil
  then show ?case by (simp add: run_def)
next
  case (Cons ev evs)
  have inv: "global_inv (step p st ev)"
    using Cons.prems(1) by (cases ev) (simp_all add: global_inv_start global_inv_resume)
  have "global (badgeCache (step p st ev)) = Some m"
    using Cons.prems by (rule global_kept_step)
  with inv have "global (badgeCache (run p evs (step p st ev))) = Some m"
    by (rule Cons.IH)
  then show ?case by (simp add: run_def)
qed

lemma run_append: "run p (evs @ evs') st = run p evs' (run p evs st)"
  by (simp add: run_def)

lemma global_slot_written_once:
  "global (badgeCache (run p evs initial)) = Some m \<Longrightarrow>
   global (badgeCache (run p (evs @ evs') initial)) = Some m"
  using global_kept_run [OF global_inv_run [OF global_inv_initial]]
  by (simp add: run_append)

end
